theory Spec2Isabelle
  imports Complex_Main "HOL-Library.Sublist"
begin

section \<open>JavaScript values used by the seed scripts\<close>

text \<open>
  Strings are lists of 8-bit characters. Numbers are idealised: a finite number is an
  exact rational (no rounding, no overflow to an infinity, and the sign of zero is not
  kept), so the model agrees with IEEE doubles wherever those are exact, in particular on
  integers below \<open>2 ^ 53\<close> in magnitude.
\<close>

datatype jsnum = Fin rat | NaN | PosInf | NegInf

datatype jsval = JUndefined | JNull | JBool bool | JNum jsnum | JStr string

text \<open>
  An object is the list of its properties in creation order. Assigning to an existing
  property replaces its value in place, assigning to a new one appends it.
\<close>

type_synonym row = "(string \<times> jsval) list"

text \<open>A raw record: what a CSV reader yields, every value still a string.\<close>

type_synonym raw = "(string \<times> string) list"

fun setProp :: "string \<Rightarrow> 'v \<Rightarrow> (string \<times> 'v) list \<Rightarrow> (string \<times> 'v) list" where
  "setProp k v [] = [(k, v)]"
| "setProp k v ((k', v') # r) = (if k' = k then (k, v) # r else (k', v') # setProp k v r)"

definition getProp :: "row \<Rightarrow> string \<Rightarrow> jsval option" where
  "getProp r k = map_of r k"

text \<open>Reading a property: an absent property reads as \<open>undefined\<close>.\<close>

definition getVal :: "row \<Rightarrow> string \<Rightarrow> jsval" where
  "getVal r k = (case getProp r k of None \<Rightarrow> JUndefined | Some v \<Rightarrow> v)"

definition deleteProp :: "string \<Rightarrow> row \<Rightarrow> row" where
  "deleteProp k r = filter (\<lambda>p. fst p \<noteq> k) r"

definition getRaw :: "raw \<Rightarrow> string \<Rightarrow> string option" where
  "getRaw r k = map_of r k"

definition lift :: "raw \<Rightarrow> row" where
  "lift r = map (\<lambda>(k, s). (k, JStr s)) r"

text \<open>\<open>a ?? b\<close>\<close>

definition coalesce :: "jsval \<Rightarrow> jsval \<Rightarrow> jsval" where
  "coalesce a b = (if a = JUndefined \<or> a = JNull then b else a)"

subsection \<open>String.prototype.trim and split\<close>

text \<open>White space and line terminators among the 8-bit characters.\<close>

definition isWhiteSpace :: "char \<Rightarrow> bool" where
  "isWhiteSpace c = (c \<in> {CHR 0x09, CHR 0x0A, CHR 0x0B, CHR 0x0C, CHR 0x0D, CHR 0x20, CHR 0xA0})"

definition js_trim :: "string \<Rightarrow> string" where
  "js_trim s = rev (dropWhile isWhiteSpace (rev (dropWhile isWhiteSpace s)))"

text \<open>
  \<open>s.split(c)\<close> for a one-character separator: a cut at every occurrence of \<open>c\<close>;
  the empty string gives one empty piece.
\<close>

fun split_acc :: "char \<Rightarrow> string \<Rightarrow> string \<Rightarrow> string list" where
  "split_acc c acc [] = [rev acc]"
| "split_acc c acc (x # xs) =
     (if x = c then rev acc # split_acc c [] xs else split_acc c (x # acc) xs)"

definition js_split :: "char \<Rightarrow> string \<Rightarrow> string list" where
  "js_split c s = split_acc c [] s"

text \<open>\<open>values[index]\<close>: out of range reads \<open>undefined\<close>.\<close>

definition nthJs :: "string list \<Rightarrow> nat \<Rightarrow> string option" where
  "nthJs xs i = (if i < length xs then Some (xs ! i) else None)"

definition strOrUndef :: "string option \<Rightarrow> jsval" where
  "strOrUndef v = (case v of None \<Rightarrow> JUndefined | Some s \<Rightarrow> JStr s)"

subsection \<open>parseInt and parseFloat\<close>

definition digitVal :: "char \<Rightarrow> nat option" where
  "digitVal c =
     (let n = of_char c :: nat in
      if 48 \<le> n \<and> n \<le> 57 then Some (n - 48)
      else if 97 \<le> n \<and> n \<le> 122 then Some (n - 87)
      else if 65 \<le> n \<and> n \<le> 90 then Some (n - 55)
      else None)"

text \<open>The longest prefix of digits of the radix, as digit values.\<close>

fun takeDigits :: "nat \<Rightarrow> string \<Rightarrow> nat list" where
  "takeDigits r [] = []"
| "takeDigits r (c # cs) =
     (case digitVal c of
        None \<Rightarrow> []
      | Some d \<Rightarrow> if d < r then d # takeDigits r cs else [])"

definition fromDigits :: "nat \<Rightarrow> nat list \<Rightarrow> nat" where
  "fromDigits r ds = foldl (\<lambda>a d. a * r + d) 0 ds"

definition isSign :: "char \<Rightarrow> bool" where
  "isSign c = (c = CHR ''+'' \<or> c = CHR ''-'')"

definition isNeg :: "string \<Rightarrow> bool" where
  "isNeg s = (case s of [] \<Rightarrow> False | c # _ \<Rightarrow> c = CHR ''-'')"

definition dropSign :: "string \<Rightarrow> string" where
  "dropSign s = (case s of [] \<Rightarrow> [] | c # cs \<Rightarrow> if isSign c then cs else s)"

definition isHexPrefix :: "string \<Rightarrow> bool" where
  "isHexPrefix s =
     (case s of a # b # _ \<Rightarrow> a = CHR ''0'' \<and> (b = CHR ''x'' \<or> b = CHR ''X'') | _ \<Rightarrow> False)"

text \<open>
  \<open>parseInt(s)\<close> without a radix: leading white space is skipped, a sign is read, a
  \<open>0x\<close> prefix selects radix 16, and the longest digit prefix is the value; \<open>None\<close>
  is \<open>NaN\<close>.
\<close>

definition parseIntStr :: "string \<Rightarrow> int option" where
  "parseIntStr s =
     (let s1 = dropWhile isWhiteSpace s;
          s2 = dropSign s1;
          r = (if isHexPrefix s2 then 16 else 10);
          z = takeDigits r (if isHexPrefix s2 then drop 2 s2 else s2)
      in if z = [] then None
         else Some ((if isNeg s1 then - 1 else 1) * int (fromDigits r z)))"

text \<open>The argument is converted to a string first; \<open>undefined\<close> becomes that word.\<close>

definition parseInt :: "string option \<Rightarrow> int option" where
  "parseInt v = (case v of None \<Rightarrow> parseIntStr ''undefined'' | Some s \<Rightarrow> parseIntStr s)"

definition ofInt :: "int option \<Rightarrow> jsnum" where
  "ofInt v = (case v of None \<Rightarrow> NaN | Some n \<Rightarrow> Fin (of_int n))"

text \<open>The exponent part \<open>e\<close>, sign, digits; absent or malformed, it counts as 0.\<close>

definition exponentOf :: "string \<Rightarrow> int" where
  "exponentOf s =
     (case s of
        [] \<Rightarrow> 0
      | c # cs \<Rightarrow>
          if c = CHR ''e'' \<or> c = CHR ''E''
          then (let ds = takeDigits 10 (dropSign cs)
                in if ds = [] then 0
                   else (if isNeg cs then - 1 else 1) * int (fromDigits 10 ds))
          else 0)"

definition pow10 :: "int \<Rightarrow> rat" where
  "pow10 e = (if 0 \<le> e then 10 ^ nat e else 1 / 10 ^ nat (- e))"

text \<open>
  \<open>parseFloat(s)\<close>: the longest prefix that is a decimal literal (sign, digits, fraction,
  exponent, or the word Infinity).
\<close>

definition parseFloatStr :: "string \<Rightarrow> jsnum" where
  "parseFloatStr s =
     (let s1 = dropWhile isWhiteSpace s;
          s2 = dropSign s1;
          ip = takeDigits 10 s2;
          r1 = drop (length ip) s2;
          hasDot = (case r1 of [] \<Rightarrow> False | c # _ \<Rightarrow> c = CHR ''.'');
          fp = (if hasDot then takeDigits 10 (drop 1 r1) else []);
          r2 = (if hasDot then drop (Suc (length fp)) r1 else r1);
          m = of_nat (fromDigits 10 ip) + of_nat (fromDigits 10 fp) / 10 ^ length fp
      in if take 8 s2 = ''Infinity'' then (if isNeg s1 then NegInf else PosInf)
         else if ip = [] \<and> fp = [] then NaN
         else Fin ((if isNeg s1 then - 1 else 1) * m * pow10 (exponentOf r2)))"

definition parseFloat :: "string option \<Rightarrow> jsnum" where
  "parseFloat v = (case v of None \<Rightarrow> parseFloatStr ''undefined'' | Some s \<Rightarrow> parseFloatStr s)"


text \<open>Division of numbers: a zero divisor gives an infinity or \<open>NaN\<close>, never an error.\<close>

fun js_div :: "jsnum \<Rightarrow> jsnum \<Rightarrow> jsnum" where
  "js_div NaN _ = NaN"
| "js_div _ NaN = NaN"
| "js_div (Fin a) (Fin b) =
     (if b = 0 then (if a = 0 then NaN else if 0 < a then PosInf else NegInf)
      else Fin (a / b))"
| "js_div (Fin a) _ = Fin 0"
| "js_div PosInf (Fin b) = (if 0 \<le> b then PosInf else NegInf)"
| "js_div NegInf (Fin b) = (if 0 \<le> b then NegInf else PosInf)"
| "js_div _ _ = NaN"

fun js_mul :: "jsnum \<Rightarrow> jsnum \<Rightarrow> jsnum" where
  "js_mul NaN _ = NaN"
| "js_mul _ NaN = NaN"
| "js_mul (Fin a) (Fin b) = Fin (a * b)"
| "js_mul (Fin a) PosInf = (if a = 0 then NaN else if 0 < a then PosInf else NegInf)"
| "js_mul (Fin a) NegInf = (if a = 0 then NaN else if 0 < a then NegInf else PosInf)"
| "js_mul PosInf (Fin b) = (if b = 0 then NaN else if 0 < b then PosInf else NegInf)"
| "js_mul NegInf (Fin b) = (if b = 0 then NaN else if 0 < b then NegInf else PosInf)"
| "js_mul PosInf PosInf = PosInf"
| "js_mul NegInf NegInf = PosInf"
| "js_mul _ _ = NegInf"


text \<open>Printing an integer in decimal, as a property key is printed.\<close>

definition digitChar :: "nat \<Rightarrow> char" where
  "digitChar d = char_of (48 + d)"

fun digits10 :: "nat \<Rightarrow> nat list" where
  "digits10 n = (if n < 10 then [n] else digits10 (n div 10) @ [n mod 10])"

declare digits10.simps [simp del]

definition showNat :: "nat \<Rightarrow> string" where
  "showNat n = map digitChar (digits10 n)"

definition showInt :: "int \<Rightarrow> string" where
  "showInt i = (if i < 0 then CHR ''-'' # showNat (nat (- i)) else showNat (nat i))"

section \<open>Errors, storage and the trace of a run\<close>

datatype error = TypeError | IOError string | StreamError string
  | NotNullViolation "string list" | StorageError string

datatype entity = Roles | Genders | Categories | PaymentMethods | Banks | OrderStatuses
  | Countries | Departments | Cities | Accesses | Users | Products | Orders | Addresses
  | OrderDetails | References

datatype sync_mode = Force | Alter

datatype dbcall = Create row | BulkCreate "row list"

text \<open>The console messages, by kind rather than by their text.\<close>

datatype logmsg =
    Starting
  | Synchronized
  | CreatedCount entity nat
  | SeedingStart entity
  | CreatingAddress row
  | SeededOk entity
  | SeederError entity error
  | Completed
  | RunError error

text \<open>
  What a run does that is visible outside it: schema synchronisations and insert calls,
  each with the outcome it had (\<open>None\<close>: it succeeded), and console messages.
\<close>

datatype event =
    SyncEv sync_mode "error option"
  | CallEv entity dbcall "error option"
  | LogEv logmsg

text \<open>The database: for each entity's table, its rows in insertion order.\<close>

type_synonym db = "entity \<Rightarrow> row list"

text \<open>
  The environment of a run. The CSV reader library, the file system and the storage layer
  are not part of the repository; they are parameters. \<open>storage\<close> is the verdict of the
  storage layer on one more row for a table in a given state (validation, not-null,
  foreign-key and uniqueness checks): \<open>None\<close> accepts the row.
\<close>

record world =
  csvStream :: "string \<Rightarrow> error + raw list"
  readFileSync :: "string \<Rightarrow> error + string"
  syncResult :: "sync_mode \<Rightarrow> error option"
  storage :: "db \<Rightarrow> entity \<Rightarrow> row \<Rightarrow> error option"

text \<open>
  An awaited operation: from the database before it to whether it rejected, the database
  after it, and the events it produced.
\<close>

type_synonym step = "db \<Rightarrow> error option \<times> db \<times> event list"

definition log :: "logmsg \<Rightarrow> step" where
  "log m d = (None, d, [LogEv m])"

definition throw :: "error \<Rightarrow> step" where
  "throw e d = (Some e, d, [])"

text \<open>A sequence of awaited statements: the first rejection skips the rest.\<close>

fun seqAwait :: "step list \<Rightarrow> step" where
  "seqAwait [] d = (None, d, [])"
| "seqAwait (s # ss) d =
     (case s d of
        (Some e, d', t) \<Rightarrow> (Some e, d', t)
      | (None, d', t) \<Rightarrow> (case seqAwait ss d' of (r, d'', t') \<Rightarrow> (r, d'', t @ t')))"

text \<open>\<open>for (const x of xs) { await f(x) }\<close>\<close>

definition forAwait :: "('a \<Rightarrow> step) \<Rightarrow> 'a list \<Rightarrow> step" where
  "forAwait f xs = seqAwait (map f xs)"

definition tryCatch :: "step \<Rightarrow> (error \<Rightarrow> step) \<Rightarrow> step" where
  "tryCatch body handler d =
     (case body d of
        (Some e, d', t) \<Rightarrow> (case handler e d' of (r, d'', t') \<Rightarrow> (r, d'', t @ t'))
      | (None, d', t) \<Rightarrow> (None, d', t))"

text \<open>
  \<open>sequelize.sync\<close>: with \<open>force\<close> every table is dropped and recreated empty, with
  \<open>alter\<close> the tables keep their rows.
\<close>

definition sync :: "world \<Rightarrow> sync_mode \<Rightarrow> step" where
  "sync w m d =
     (case syncResult w m of
        Some e \<Rightarrow> (Some e, d, [SyncEv m (Some e)])
      | None \<Rightarrow> (None, (case m of Force \<Rightarrow> (\<lambda>_. []) | Alter \<Rightarrow> d), [SyncEv m None]))"

text \<open>
  The Address model (its definition is listed in the project documentation) declares
  these columns \<open>allowNull: false\<close> without a default; a row that leaves one of them
  null or undefined is rejected with a not-null violation naming the columns.
\<close>

definition addressRequired :: "string list" where
  "addressRequired =
     [''user_id'', ''city_id'', ''department_id'', ''country_id'', ''street'', ''number'',
      ''postal_code'']"

definition notNullViolations :: "string list \<Rightarrow> row \<Rightarrow> string list" where
  "notNullViolations cols r = filter (\<lambda>c. getVal r c = JUndefined \<or> getVal r c = JNull) cols"

definition modelValidate :: "entity \<Rightarrow> row \<Rightarrow> error option" where
  "modelValidate E r =
     (if E = Addresses \<and> notNullViolations addressRequired r \<noteq> []
      then Some (NotNullViolation (notNullViolations addressRequired r))
      else None)"

definition accept :: "world \<Rightarrow> db \<Rightarrow> entity \<Rightarrow> row \<Rightarrow> error option" where
  "accept w d E r =
     (case modelValidate E r of Some e \<Rightarrow> Some e | None \<Rightarrow> storage w d E r)"

text \<open>\<open>Model.create(row)\<close>: one insert; the stored row is the row given.\<close>

definition create :: "world \<Rightarrow> entity \<Rightarrow> row \<Rightarrow> step" where
  "create w E r d =
     (case accept w d E r of
        Some e \<Rightarrow> (Some e, d, [CallEv E (Create r) (Some e)])
      | None \<Rightarrow> (None, d(E := d E @ [r]), [CallEv E (Create r) None]))"

text \<open>\<open>Model.bulkCreate(rows)\<close>: one statement, all rows or none.\<close>

fun bulkCheck :: "world \<Rightarrow> entity \<Rightarrow> row list \<Rightarrow> db \<Rightarrow> error + db" where
  "bulkCheck w E [] d = Inr d"
| "bulkCheck w E (r # rs) d =
     (case accept w d E r of
        Some e \<Rightarrow> Inl e
      | None \<Rightarrow> bulkCheck w E rs (d(E := d E @ [r])))"

definition bulkCreate :: "world \<Rightarrow> entity \<Rightarrow> row list \<Rightarrow> step" where
  "bulkCreate w E rs d =
     (case bulkCheck w E rs d of
        Inl e \<Rightarrow> (Some e, d, [CallEv E (BulkCreate rs) (Some e)])
      | Inr d' \<Rightarrow> (None, d', [CallEv E (BulkCreate rs) None]))"

section \<open>Reading a CSV text (final.seeder.ts, complete.seeder.ts, address and order-detail seeders)\<close>

text \<open>
  \<open>lines = csvData.trim().split("\n"); headers = lines[0].split(",")\<close> and
  \<open>lines.slice(1)\<close>. Reading \<open>lines[0]\<close> of an empty array would raise a TypeError.
\<close>

definition csvHeadAndLines :: "string \<Rightarrow> error + string list \<times> string list" where
  "csvHeadAndLines csvData =
     (let lines = js_split (CHR 0x0A) (js_trim csvData)
      in case lines of
           [] \<Rightarrow> Inl TypeError
         | l0 # _ \<Rightarrow> Inr (js_split CHR '','' l0, drop 1 lines))"

text \<open>\<open>headers.forEach((header, index) => { record[header] = values[index]; })\<close>\<close>

definition csvRecord :: "string list \<Rightarrow> string \<Rightarrow> row" where
  "csvRecord headers line =
     (let values = js_split CHR '','' line
      in fold (\<lambda>(index, header) record. setProp header (strOrUndef (nthJs values index)) record)
           (enumerate 0 headers) [])"

definition seedFromCSV_records :: "(row \<Rightarrow> row) option \<Rightarrow> string \<Rightarrow> error + row list" where
  "seedFromCSV_records transform csvData =
     (case csvHeadAndLines csvData of
        Inl e \<Rightarrow> Inl e
      | Inr (headers, rest) \<Rightarrow>
          Inr (map (\<lambda>line. let record = csvRecord headers line
                            in (case transform of None \<Rightarrow> record | Some f \<Rightarrow> f record))
                 rest))"

text \<open>\<open>(row) => ({ ...row, is_active: row.is_active === 'true' })\<close>\<close>

definition activeTransform :: "row \<Rightarrow> row" where
  "activeTransform r = setProp ''is_active'' (JBool (getVal r ''is_active'' = JStr ''true'')) r"

definition seedFromCSV ::
  "world \<Rightarrow> string \<Rightarrow> entity \<Rightarrow> string \<Rightarrow> (row \<Rightarrow> row) option \<Rightarrow> step" where
  "seedFromCSV w dir model filename transform =
     (case readFileSync w (dir @ filename) of
        Inl e \<Rightarrow> throw e
      | Inr csvData \<Rightarrow>
          (case seedFromCSV_records transform csvData of
             Inl e \<Rightarrow> throw e
           | Inr records \<Rightarrow>
               seqAwait [bulkCreate w model records, log (CreatedCount model (length records))]))"

subsection \<open>The parse as the specification words it\<close>







section \<open>The seeders that read through the CSV reader library\<close>

text \<open>
  Twelve seeders have one shape: the reader delivers the rows, a \<open>data\<close> handler
  converts each row as it arrives, and at \<open>end\<close> every row is handed to the entity's
  DAO, one awaited call after the other; then the count is logged. A reader error
  rejects before any insert. The handlers read only properties they have not yet
  overwritten, so they read the raw row.
\<close>

definition streamSeeder ::
  "world \<Rightarrow> string \<Rightarrow> entity \<Rightarrow> (raw \<Rightarrow> row) \<Rightarrow> (row \<Rightarrow> row) \<Rightarrow> step" where
  "streamSeeder w csvPath E onData dao =
     (case csvStream w csvPath of
        Inl e \<Rightarrow> throw e
      | Inr rows \<Rightarrow>
          seqAwait [forAwait (\<lambda>r. create w E (dao r)) (map onData rows),
                    log (CreatedCount E (length rows))])"

text \<open>\<open>row.is_active = row.is_active === 'true'\<close>\<close>

definition activeOnData :: "raw \<Rightarrow> row" where
  "activeOnData r = setProp ''is_active'' (JBool (getRaw r ''is_active'' = Some ''true'')) (lift r)"

definition accessOnData :: "raw \<Rightarrow> row" where
  "accessOnData r =
     setProp ''role_id'' (JNum (ofInt (parseInt (getRaw r ''role_id'')))) (activeOnData r)"

definition productOnData :: "raw \<Rightarrow> row" where
  "productOnData r =
     deleteProp ''categoryId''
       (setProp ''category_id'' (JNum (ofInt (parseInt (getRaw r ''categoryId''))))
         (setProp ''stock'' (JNum (ofInt (parseInt (getRaw r ''stock''))))
           (setProp ''price'' (JNum (ofInt (parseInt (getRaw r ''price'')))) (lift r))))"

text \<open>
  The argument the DAOs build for \<open>Model.create\<close>. createRole, createBank,
  createCountry, createDepartment and createCity pass
  \<open>{ name: data.name, is_active: data.is_active ?? true }\<close>; createProduct picks six
  fields; the other DAOs pass their argument on.
\<close>

definition nameActiveDao :: "row \<Rightarrow> row" where
  "nameActiveDao data =
     [(''name'', getVal data ''name''),
      (''is_active'', coalesce (getVal data ''is_active'') (JBool True))]"

definition productDao :: "row \<Rightarrow> row" where
  "productDao data =
     [(''category_id'', getVal data ''category_id''),
      (''name'', getVal data ''name''),
      (''price'', getVal data ''price''),
      (''description'', getVal data ''description''),
      (''stock'', getVal data ''stock''),
      (''is_active'', coalesce (getVal data ''is_active'') (JBool True))]"

definition passDao :: "row \<Rightarrow> row" where
  "passDao data = data"

definition seedRoles :: "world \<Rightarrow> step" where
  "seedRoles w = streamSeeder w ''../docs/data/roles.csv'' Roles activeOnData nameActiveDao"

definition seedGenders :: "world \<Rightarrow> step" where
  "seedGenders w = streamSeeder w ''../docs/data/genders.csv'' Genders activeOnData passDao"

definition seedCategories :: "world \<Rightarrow> step" where
  "seedCategories w =
     streamSeeder w ''../docs/data/categories.csv'' Categories activeOnData passDao"

definition seedPaymentMethods :: "world \<Rightarrow> step" where
  "seedPaymentMethods w =
     streamSeeder w ''../docs/data/payment-methods.csv'' PaymentMethods activeOnData passDao"

definition seedBanks :: "world \<Rightarrow> step" where
  "seedBanks w = streamSeeder w ''../docs/data/banks.csv'' Banks activeOnData nameActiveDao"

definition seedOrderStatus :: "world \<Rightarrow> step" where
  "seedOrderStatus w =
     streamSeeder w ''../docs/data/order-status.csv'' OrderStatuses lift passDao"

definition seedCountries :: "world \<Rightarrow> step" where
  "seedCountries w = streamSeeder w ''../docs/data/countries.csv'' Countries lift nameActiveDao"

definition seedDepartments :: "world \<Rightarrow> step" where
  "seedDepartments w =
     streamSeeder w ''../docs/data/departaments.csv'' Departments lift nameActiveDao"

definition seedCities :: "world \<Rightarrow> step" where
  "seedCities w = streamSeeder w ''../docs/data/cities.csv'' Cities lift nameActiveDao"

definition seedAccesses :: "world \<Rightarrow> step" where
  "seedAccesses w = streamSeeder w ''../docs/data/accesses.csv'' Accesses accessOnData passDao"

definition seedUsers :: "world \<Rightarrow> step" where
  "seedUsers w = streamSeeder w ''../docs/data/users.csv'' Users lift passDao"

definition seedProducts :: "world \<Rightarrow> step" where
  "seedProducts w =
     streamSeeder w ''../docs/data/products.csv'' Products productOnData productDao"

section \<open>The order seeder\<close>

definition orders :: "row list" where
  "orders =
     [[(''customer_id'', JNum (Fin 2)), (''bank_id'', JNum (Fin 1)),
       (''order_status_id'', JNum (Fin 1)), (''total'', JNum (Fin 365000)),
       (''is_active'', JBool True)]]"

definition seedOrders :: "world \<Rightarrow> step" where
  "seedOrders w =
     seqAwait [forAwait (\<lambda>orderData. create w Orders (passDao orderData)) orders,
               log (CreatedCount Orders (length orders))]"

section \<open>The address seeder\<close>

text \<open>
  The body of \<open>headers.forEach\<close>: the misspelled column \<open>departament_id\<close> is stored
  under \<open>department_id\<close>, and the five key columns are parsed as integers.
\<close>

definition addressAssign :: "string list \<Rightarrow> nat \<times> string \<Rightarrow> row \<Rightarrow> row" where
  "addressAssign values = (\<lambda>(index, header) address.
     let value = nthJs values index;
         fieldName = (if header = ''departament_id'' then ''department_id'' else header)
     in if header = ''city_id'' \<or> header = ''departament_id'' \<or> header = ''department_id''
           \<or> header = ''country_id'' \<or> header = ''user_id''
        then setProp fieldName (JNum (ofInt (parseInt value))) address
        else setProp fieldName (strOrUndef value) address)"

definition addressRecord :: "string list \<Rightarrow> string \<Rightarrow> row" where
  "addressRecord headers line =
     (let values = js_split CHR '','' line
      in fold (addressAssign values) (enumerate 0 headers) [])"

definition addressRecords :: "string \<Rightarrow> error + row list" where
  "addressRecords csvData =
     (case csvHeadAndLines csvData of
        Inl e \<Rightarrow> Inl e
      | Inr (headers, rest) \<Rightarrow> Inr (map (addressRecord headers) rest))"

definition seedAddresses :: "world \<Rightarrow> step" where
  "seedAddresses w =
     tryCatch
       (seqAwait
          [log (SeedingStart Addresses),
           (case readFileSync w ''../docs/data/addresses.csv'' of
              Inl e \<Rightarrow> throw e
            | Inr csvData \<Rightarrow>
                (case addressRecords csvData of
                   Inl e \<Rightarrow> throw e
                 | Inr addresses \<Rightarrow>
                     forAwait
                       (\<lambda>addressData.
                          seqAwait [log (CreatingAddress addressData),
                                    create w Addresses (passDao addressData)])
                       addresses)),
           log (SeededOk Addresses)])
       (\<lambda>e. seqAwait [log (SeederError Addresses e), throw e])"

subsection \<open>The address seeder before the column was renamed\<close>

text \<open>
  The other version of the file in the repository: no renaming, and the integer columns
  are \<open>city_id\<close>, \<open>department_id\<close>, \<open>country_id\<close> and \<open>info_user_id\<close>. It does
  not log each record.
\<close>

definition addressAssign_unrenamed :: "string list \<Rightarrow> nat \<times> string \<Rightarrow> row \<Rightarrow> row" where
  "addressAssign_unrenamed values = (\<lambda>(index, header) address.
     let value = nthJs values index
     in if header = ''city_id'' \<or> header = ''department_id'' \<or> header = ''country_id''
           \<or> header = ''info_user_id''
        then setProp header (JNum (ofInt (parseInt value))) address
        else setProp header (strOrUndef value) address)"

definition addressRecord_unrenamed :: "string list \<Rightarrow> string \<Rightarrow> row" where
  "addressRecord_unrenamed headers line =
     (let values = js_split CHR '','' line
      in fold (addressAssign_unrenamed values) (enumerate 0 headers) [])"

definition addressRecords_unrenamed :: "string \<Rightarrow> error + row list" where
  "addressRecords_unrenamed csvData =
     (case csvHeadAndLines csvData of
        Inl e \<Rightarrow> Inl e
      | Inr (headers, rest) \<Rightarrow> Inr (map (addressRecord_unrenamed headers) rest))"

definition seedAddresses_unrenamed :: "world \<Rightarrow> step" where
  "seedAddresses_unrenamed w =
     tryCatch
       (seqAwait
          [log (SeedingStart Addresses),
           (case readFileSync w ''../docs/data/addresses.csv'' of
              Inl e \<Rightarrow> throw e
            | Inr csvData \<Rightarrow>
                (case addressRecords_unrenamed csvData of
                   Inl e \<Rightarrow> throw e
                 | Inr addresses \<Rightarrow>
                     forAwait (\<lambda>addressData. create w Addresses (passDao addressData))
                       addresses)),
           log (SeededOk Addresses)])
       (\<lambda>e. seqAwait [log (SeederError Addresses e), throw e])"


section \<open>The order-detail seeder\<close>

text \<open>
  A property of the object built per line is absent or holds a value whose type the
  header decides: \<open>order_id\<close>, \<open>product_id\<close> and \<open>amount\<close> hold the result of
  parseInt, \<open>subtotal\<close> that of parseFloat, \<open>is_active\<close> a boolean, any other header
  the raw value. The record below has one field per typed property.
\<close>

datatype 'a field = Missing | Has 'a

record orderDetail =
  order_id :: "int option field"
  product_id :: "int option field"
  amount :: "int option field"
  subtotal :: "jsnum field"
  is_active :: "bool field"
  others :: "(string \<times> string option) list"

definition emptyDetail :: orderDetail where
  "emptyDetail =
     \<lparr>order_id = Missing, product_id = Missing, amount = Missing, subtotal = Missing,
      is_active = Missing, others = []\<rparr>"

definition orderDetailAssign :: "string list \<Rightarrow> nat \<times> string \<Rightarrow> orderDetail \<Rightarrow> orderDetail" where
  "orderDetailAssign values = (\<lambda>(index, header) detail.
     let value = nthJs values index
     in if header = ''order_id'' then detail\<lparr>order_id := Has (parseInt value)\<rparr>
        else if header = ''product_id'' then detail\<lparr>product_id := Has (parseInt value)\<rparr>
        else if header = ''amount'' then detail\<lparr>amount := Has (parseInt value)\<rparr>
        else if header = ''subtotal'' then detail\<lparr>subtotal := Has (parseFloat value)\<rparr>
        else if header = ''is_active'' then detail\<lparr>is_active := Has (value = Some ''true'')\<rparr>
        else detail\<lparr>others := setProp header value (others detail)\<rparr>)"

definition orderDetailRecord :: "string list \<Rightarrow> string \<Rightarrow> orderDetail" where
  "orderDetailRecord headers line =
     (let values = js_split CHR '','' line
      in fold (orderDetailAssign values) (enumerate 0 headers) emptyDetail)"

definition orderDetailRecords :: "string \<Rightarrow> error + orderDetail list" where
  "orderDetailRecords csvData =
     (case csvHeadAndLines csvData of
        Inl e \<Rightarrow> Inl e
      | Inr (headers, rest) \<Rightarrow> Inr (map (orderDetailRecord headers) rest))"

text \<open>A property used as a number: \<open>undefined\<close> counts as \<open>NaN\<close>.\<close>

definition numOf :: "jsnum field \<Rightarrow> jsnum" where
  "numOf f = (case f of Missing \<Rightarrow> NaN | Has n \<Rightarrow> n)"

definition numOfInt :: "int option field \<Rightarrow> jsnum" where
  "numOfInt f = (case f of Missing \<Rightarrow> NaN | Has v \<Rightarrow> ofInt v)"

text \<open>The string under which a value of \<open>order_id\<close> is filed as a property key.\<close>

definition keyOf :: "int option field \<Rightarrow> string" where
  "keyOf f =
     (case f of Missing \<Rightarrow> ''undefined'' | Has None \<Rightarrow> ''NaN'' | Has (Some n) \<Rightarrow> showInt n)"

record item =
  price :: jsnum
  quantity :: "int option field"

definition itemOf :: "orderDetail \<Rightarrow> item" where
  "itemOf detail =
     \<lparr>price = js_div (numOf (subtotal detail)) (numOfInt (amount detail)),
      quantity = amount detail\<rparr>"

text \<open>
  The callback of \<open>reduce\<close>: a group is created empty the first time its key is seen,
  and the item is pushed onto it.
\<close>

definition addToGroups ::
  "(string \<times> item list) list \<Rightarrow> orderDetail \<Rightarrow> (string \<times> item list) list" where
  "addToGroups groups detail =
     (let orderId = keyOf (order_id detail)
      in case map_of groups orderId of
           None \<Rightarrow> groups @ [(orderId, [itemOf detail])]
         | Some products \<Rightarrow> setProp orderId (products @ [itemOf detail]) groups)"

definition orderGroups :: "orderDetail list \<Rightarrow> (string \<times> item list) list" where
  "orderGroups orderDetails = foldl addToGroups [] orderDetails"

text \<open>
  \<open>Object.entries\<close> lists the keys that are array indices (canonical decimal integers up
  to \<open>2 ^ 32 - 2\<close>) first, in ascending order, then the other keys in creation order.
\<close>

definition isArrayIndex :: "string \<Rightarrow> bool" where
  "isArrayIndex s =
     (case s of
        [] \<Rightarrow> False
      | c # cs \<Rightarrow>
          length (takeDigits 10 s) = length s \<and> (c \<noteq> CHR ''0'' \<or> cs = [])
          \<and> int (fromDigits 10 (takeDigits 10 s)) \<le> 4294967294)"

definition indexOfKey :: "string \<Rightarrow> nat" where
  "indexOfKey s = fromDigits 10 (takeDigits 10 s)"

definition objectEntries :: "(string \<times> 'a) list \<Rightarrow> (string \<times> 'a) list" where
  "objectEntries obj =
     sort_key (\<lambda>p. indexOfKey (fst p)) (filter (\<lambda>p. isArrayIndex (fst p)) obj)
       @ filter (\<lambda>p. \<not> isArrayIndex (fst p)) obj"

text \<open>
  The calls the final loop makes, in order:
  \<open>createShoppingCart(parseInt(orderId), products)\<close> for each entry.
\<close>

definition shoppingCartCalls :: "orderDetail list \<Rightarrow> (int option \<times> item list) list" where
  "shoppingCartCalls orderDetails =
     map (\<lambda>(orderId, products). (parseInt (Some orderId), products))
       (objectEntries (orderGroups orderDetails))"

definition quantityVal :: "int option field \<Rightarrow> jsval" where
  "quantityVal f = (case f of Missing \<Rightarrow> JUndefined | Has v \<Rightarrow> JNum (ofInt v))"

text \<open>createShoppingCart (payment.dao.ts): one bulk insert of the order's items.\<close>

definition orderItemsToCreate :: "int option \<Rightarrow> item list \<Rightarrow> row list" where
  "orderItemsToCreate userId products =
     map (\<lambda>product.
            [(''order_id'', JNum (ofInt userId)),
             (''price'', JNum (price product)),
             (''quantity'', quantityVal (quantity product)),
             (''subtotal'', JNum (js_mul (price product) (numOfInt (quantity product)))),
             (''is_active'', JBool True)])
       products"

definition createShoppingCart :: "world \<Rightarrow> int option \<Rightarrow> item list \<Rightarrow> step" where
  "createShoppingCart w userId products =
     bulkCreate w OrderDetails (orderItemsToCreate userId products)"

definition seedOrderDetails :: "world \<Rightarrow> step" where
  "seedOrderDetails w =
     tryCatch
       (seqAwait
          [log (SeedingStart OrderDetails),
           (case readFileSync w ''../docs/data/order-details.csv'' of
              Inl e \<Rightarrow> throw e
            | Inr csvData \<Rightarrow>
                (case orderDetailRecords csvData of
                   Inl e \<Rightarrow> throw e
                 | Inr orderDetails \<Rightarrow>
                     forAwait (\<lambda>(orderId, products). createShoppingCart w orderId products)
                       (shoppingCartCalls orderDetails))),
           log (SeededOk OrderDetails)])
       (\<lambda>e. seqAwait [log (SeederError OrderDetails e), throw e])"

section \<open>The runners\<close>

text \<open>The seeders in the order in which runSeeders awaits them.\<close>

definition registry :: "entity list" where
  "registry =
     [Roles, Genders, Categories, PaymentMethods, Banks, OrderStatuses, Countries,
      Departments, Cities, Accesses, Users, Products, Orders, Addresses, OrderDetails]"

text \<open>The foreign-key dependencies, as the comments of runSeeders give them.\<close>

fun dependsOn :: "entity \<Rightarrow> entity set" where
  "dependsOn Accesses = {Roles}"
| "dependsOn Users = {Accesses, Genders}"
| "dependsOn Products = {Categories}"
| "dependsOn Orders = {Users, PaymentMethods, Banks, OrderStatuses}"
| "dependsOn Addresses = {Cities, Departments, Countries, Users}"
| "dependsOn OrderDetails = {Orders, Products}"
| "dependsOn _ = {}"

definition runSeeders :: "world \<Rightarrow> step" where
  "runSeeders w =
     tryCatch
       (seqAwait
          [log Starting,
           sync w Force,
           log Synchronized,
           seedRoles w,
           seedGenders w,
           seedCategories w,
           seedPaymentMethods w,
           seedBanks w,
           seedOrderStatus w,
           seedCountries w,
           seedDepartments w,
           seedCities w,
           seedAccesses w,
           seedUsers w,
           seedProducts w,
           seedOrders w,
           seedAddresses w,
           seedOrderDetails w,
           log Completed])
       (\<lambda>error. seqAwait [log (RunError error), throw error])"


text \<open>runCompleteSeeder (complete.seeder.ts): no reset, seven bulk inserts.\<close>

definition runCompleteSeeder :: "world \<Rightarrow> step" where
  "runCompleteSeeder w =
     tryCatch
       (seqAwait
          [log Starting,
           sync w Alter,
           log Synchronized,
           seedFromCSV w ''../data/'' Countries ''countries.csv'' None,
           seedFromCSV w ''../data/'' Departments ''departments.csv'' None,
           seedFromCSV w ''../data/'' Cities ''cities.csv'' None,
           seedFromCSV w ''../data/'' Banks ''banks.csv'' (Some activeTransform),
           seedFromCSV w ''../data/'' PaymentMethods ''payment-methods.csv'' (Some activeTransform),
           seedFromCSV w ''../data/'' OrderStatuses ''order-status.csv'' None,
           seedFromCSV w ''../data/'' References ''references.csv'' (Some activeTransform),
           log Completed])
       (\<lambda>error. seqAwait [log (RunError error), throw error])"

text \<open>The bulk inserts of runCompleteSeeder with the table each one fills, in order.\<close>

definition completeSeeders :: "world \<Rightarrow> (entity \<times> step) list" where
  "completeSeeders w =
     [(Countries, seedFromCSV w ''../data/'' Countries ''countries.csv'' None),
      (Departments, seedFromCSV w ''../data/'' Departments ''departments.csv'' None),
      (Cities, seedFromCSV w ''../data/'' Cities ''cities.csv'' None),
      (Banks, seedFromCSV w ''../data/'' Banks ''banks.csv'' (Some activeTransform)),
      (PaymentMethods,
       seedFromCSV w ''../data/'' PaymentMethods ''payment-methods.csv'' (Some activeTransform)),
      (OrderStatuses, seedFromCSV w ''../data/'' OrderStatuses ''order-status.csv'' None),
      (References, seedFromCSV w ''../data/'' References ''references.csv'' (Some activeTransform))]"

text \<open>The seeders of runSeeders with the entity each one fills, in the order of the code.\<close>

definition seeders :: "world \<Rightarrow> (entity \<times> step) list" where
  "seeders w =
     [(Roles, seedRoles w), (Genders, seedGenders w), (Categories, seedCategories w),
      (PaymentMethods, seedPaymentMethods w), (Banks, seedBanks w),
      (OrderStatuses, seedOrderStatus w), (Countries, seedCountries w),
      (Departments, seedDepartments w), (Cities, seedCities w), (Accesses, seedAccesses w),
      (Users, seedUsers w), (Products, seedProducts w), (Orders, seedOrders w),
      (Addresses, seedAddresses w), (OrderDetails, seedOrderDetails w)]"

section \<open>Reading a trace\<close>

text \<open>The entity whose seeder announces its success with this event, if it is one.\<close>

fun successOf :: "event \<Rightarrow> entity option" where
  "successOf (LogEv (CreatedCount E n)) = Some E"
| "successOf (LogEv (SeededOk E)) = Some E"
| "successOf _ = None"

definition succs :: "event list \<Rightarrow> entity set" where
  "succs t = set (List.map_filter successOf t)"

fun rowsOf :: "dbcall \<Rightarrow> row list" where
  "rowsOf (Create r) = [r]"
| "rowsOf (BulkCreate rs) = rs"

text \<open>The rows that the successful insert calls of a trace put into a table.\<close>

fun committed :: "entity \<Rightarrow> event list \<Rightarrow> row list" where
  "committed E [] = []"
| "committed E (CallEv E' c out # t) =
     (if E' = E \<and> out = None then rowsOf c @ committed E t else committed E t)"
| "committed E (_ # t) = committed E t"

fun isSync :: "event \<Rightarrow> bool" where
  "isSync (SyncEv m out) = True"
| "isSync _ = False"

fun isCall :: "event \<Rightarrow> bool" where
  "isCall (CallEv E c out) = True"
| "isCall _ = False"

text \<open>An event a seeder of entity \<open>E\<close> may produce before its success message.\<close>

fun calm :: "entity \<Rightarrow> event \<Rightarrow> bool" where
  "calm E (CallEv E' c out) = (E' = E)"
| "calm E (SyncEv m out) = False"
| "calm E (LogEv l) = (successOf (LogEv l) = None)"

fun succeeded :: "event \<Rightarrow> bool" where
  "succeeded (CallEv E c out) = (out = None)"
| "succeeded (SyncEv m out) = (out = None)"
| "succeeded (LogEv l) = True"

text \<open>
  A trace keeps the dependency order, given the entities seeded before it: an insert for
  \<open>E\<close> comes only when every entity \<open>E\<close> depends on has announced success and \<open>E\<close>
  has not, and no success is announced after a failed insert.
\<close>

fun ordered :: "entity set \<Rightarrow> event list \<Rightarrow> bool" where
  "ordered sd [] = True"
| "ordered sd (CallEv E c out # t) =
     (dependsOn E \<subseteq> sd \<and> E \<notin> sd \<and> (out \<noteq> None \<longrightarrow> succs t = {}) \<and> ordered sd t)"
| "ordered sd (SyncEv m out # t) = ordered sd t"
| "ordered sd (LogEv l # t) =
     (case successOf (LogEv l) of None \<Rightarrow> ordered sd t | Some D \<Rightarrow> ordered (insert D sd) t)"

text \<open>A list of entities in which each one comes after those it depends on.\<close>

fun depsOk :: "entity set \<Rightarrow> entity list \<Rightarrow> bool" where
  "depsOk sd [] = True"
| "depsOk sd (E # es) = (dependsOn E \<subseteq> sd \<and> E \<notin> sd \<and> depsOk (insert E sd) es)"

text \<open>
  What every part of a seeder of \<open>E\<close> does: it produces only events of \<open>E\<close>, all of
  them successful if it resolves, and the tables grow by the rows of its successful calls.
\<close>

definition calmStep :: "entity \<Rightarrow> step \<Rightarrow> bool" where
  "calmStep E s =
     (\<forall>d. case s d of
             (r, d', t) \<Rightarrow>
               (\<forall>x \<in> set t. calm E x) \<and> (r = None \<longrightarrow> (\<forall>x \<in> set t. succeeded x))
               \<and> (\<forall>D. d' D = d D @ committed D t))"

text \<open>
  What a whole seeder of \<open>E\<close> does: resolved, its trace is calm, successful and ends with
  the success message of \<open>E\<close>; rejected, its trace is calm.
\<close>

definition segStep :: "entity \<Rightarrow> step \<Rightarrow> bool" where
  "segStep E s =
     (\<forall>d. case s d of
             (r, d', t) \<Rightarrow>
               (\<forall>D. d' D = d D @ committed D t)
               \<and> (case r of
                     None \<Rightarrow> (\<exists>t0 x. t = t0 @ [x] \<and> successOf x = Some E
                                 \<and> (\<forall>y \<in> set t0. calm E y \<and> succeeded y))
                   | Some e \<Rightarrow> (\<forall>y \<in> set t. calm E y)))"

text \<open>The rows of every insert call issued for a table, whatever its outcome.\<close>

fun issued :: "entity \<Rightarrow> event list \<Rightarrow> row list" where
  "issued E [] = []"
| "issued E (CallEv E' c out # t) = (if E' = E then rowsOf c @ issued E t else issued E t)"
| "issued E (_ # t) = issued E t"

text \<open>The success messages of an entity in a trace.\<close>

definition successMessages :: "entity \<Rightarrow> event list \<Rightarrow> event list" where
  "successMessages E t = filter (\<lambda>x. successOf x = Some E) t"

text \<open>
  A step that, once it has resolved from some database, does the same from any other
  database unless an insert call is rejected there.
\<close>

definition stable :: "step \<Rightarrow> bool" where
  "stable s =
     (\<forall>d d' t da.
        s d = (None, d', t) \<longrightarrow>
        (case s da of
           (None, db, ta) \<Rightarrow> ta = t
         | (Some e, db, ta) \<Rightarrow> (\<exists>E c. CallEv E c (Some e) \<in> set ta)))"

text \<open>The property name and the value that the address seeder assigns for a column.\<close>

definition addressKey :: "string \<Rightarrow> string" where
  "addressKey header = (if header = ''departament_id'' then ''department_id'' else header)"

definition addressValue :: "string list \<Rightarrow> nat \<Rightarrow> string \<Rightarrow> jsval" where
  "addressValue values index header =
     (if header = ''city_id'' \<or> header = ''departament_id'' \<or> header = ''department_id''
         \<or> header = ''country_id'' \<or> header = ''user_id''
      then JNum (ofInt (parseInt (nthJs values index)))
      else strOrUndef (nthJs values index))"

definition unrenamedValue :: "string list \<Rightarrow> nat \<Rightarrow> string \<Rightarrow> jsval" where
  "unrenamedValue values index header =
     (if header = ''city_id'' \<or> header = ''department_id'' \<or> header = ''country_id''
         \<or> header = ''info_user_id''
      then JNum (ofInt (parseInt (nthJs values index)))
      else strOrUndef (nthJs values index))"


text \<open>Some insert call of the trace was rejected.\<close>

definition failedCall :: "event list \<Rightarrow> bool" where
  "failedCall t = (\<exists>E c e. CallEv E c (Some e) \<in> set t)"

section \<open>Concrete environments\<close>

text \<open>A storage layer whose only constraint is that a table holds no row twice.\<close>

definition uniqueStorage :: "db \<Rightarrow> entity \<Rightarrow> row \<Rightarrow> error option" where
  "uniqueStorage d E r = (if r \<in> set (d E) then Some (StorageError ''unique'') else None)"

text \<open>
  An environment given by the rows of the listed CSV streams and the texts of the listed
  files; every other stream and file is empty. The schema synchronisation succeeds.
\<close>

definition worldOf :: "(string \<times> raw list) list \<Rightarrow> (string \<times> string) list \<Rightarrow> world" where
  "worldOf streams files =
     \<lparr>csvStream = (\<lambda>p. case map_of streams p of None \<Rightarrow> Inr [] | Some rows \<Rightarrow> Inr rows),
      readFileSync = (\<lambda>p. case map_of files p of None \<Rightarrow> Inr [] | Some text \<Rightarrow> Inr text),
      syncResult = (\<lambda>m. None),
      storage = uniqueStorage\<rparr>"

definition adminRole :: raw where
  "adminRole = [(''name'', ''Admin''), (''is_active'', ''true'')]"

definition adminAccess :: raw where
  "adminAccess = [(''role_id'', ''1''), (''username'', ''admin''), (''is_active'', ''true'')]"

text \<open>One role, one access, the built-in order, nothing else.\<close>

definition demoWorld :: world where
  "demoWorld =
     worldOf [(''../docs/data/roles.csv'', [adminRole]),
              (''../docs/data/accesses.csv'', [adminAccess])] []"

text \<open>The roles file lists the same role twice; the second insert breaks uniqueness.\<close>

definition dupWorld :: world where
  "dupWorld = worldOf [(''../docs/data/roles.csv'', [adminRole, adminRole])] []"

text \<open>A countries file with one country, read by runCompleteSeeder.\<close>

definition completeWorld :: world where
  "completeWorld =
     worldOf [] [(''../data/countries.csv'', ''name'' @ [CHR 0x0A] @ ''Colombia'')]"

text \<open>The same files over a storage layer that accepts every row.\<close>

definition laxWorld :: world where
  "laxWorld = completeWorld\<lparr>storage := (\<lambda>d E r. None)\<rparr>"

text \<open>
  The three-row roles file of the boundary case: its text, and the rows a CSV reader
  delivers for it (the last field of the third row is the empty string).
\<close>

definition guestCsv :: string where
  "guestCsv =
     ''name,is_active'' @ [CHR 0x0A] @ ''Admin,true'' @ [CHR 0x0A] @ ''User,false''
       @ [CHR 0x0A] @ ''Guest,''"

definition guestRows :: "raw list" where
  "guestRows =
     [[(''name'', ''Admin''), (''is_active'', ''true'')],
      [(''name'', ''User''), (''is_active'', ''false'')],
      [(''name'', ''Guest''), (''is_active'', [])]]"

text \<open>A storage layer that rejects a row with a null or undefined value, and a repeated row.\<close>

definition strictStorage :: "db \<Rightarrow> entity \<Rightarrow> row \<Rightarrow> error option" where
  "strictStorage d E r =
     (if notNullViolations (map fst r) r \<noteq> [] then Some (NotNullViolation (notNullViolations (map fst r) r))
      else uniqueStorage d E r)"

definition guestWorld :: world where
  "guestWorld = (worldOf [(''../docs/data/roles.csv'', guestRows)] [])\<lparr>storage := strictStorage\<rparr>"

text \<open>An addresses file whose header has the misspelled column.\<close>

definition addressCsv :: string where
  "addressCsv =
     ''user_id,city_id,departament_id,country_id,street,number,postal_code'' @ [CHR 0x0A]
       @ ''1,2,3,4,Main,10,1100''"

definition addressWorld :: world where
  "addressWorld = worldOf [] [(''../docs/data/addresses.csv'', addressCsv)]"



definition emptyDb :: db where
  "emptyDb = (\<lambda>E. [])"

section \<open>Lemmas about strings and records\<close>













lemma map_of_setProp: "map_of (setProp k v r) = (map_of r)(k \<mapsto> v)"
  by (induction r) (auto simp: fun_eq_iff)

lemma map_of_fold_setProp:
  "map_of (fold (\<lambda>(k, v) r. setProp k v r) ps r0) = map_of r0 ++ map_of (rev ps)"
proof (induction ps arbitrary: r0)
  case Nil
  then show ?case by simp
next
  case (Cons p ps)
  obtain k v where p: "p = (k, v)" by (cases p)
  have "map_of (setProp k v r0) ++ map_of (rev ps) = map_of r0 ++ map_of (rev ps @ [(k, v)])"
    by (simp add: map_of_setProp map_add_def fun_eq_iff split: option.splits)
  then show ?case using Cons.IH [of "setProp k v r0"] p by simp
qed

lemma map_of_rev_last_occurrence:
  assumes "i < length ps" and "\<forall>j. i < j \<and> j < length ps \<longrightarrow> fst (ps ! j) \<noteq> fst (ps ! i)"
  shows "map_of (rev ps) (fst (ps ! i)) = Some (snd (ps ! i))"
proof -
  let ?k = "fst (ps ! i)"
  have split: "ps = take i ps @ ps ! i # drop (Suc i) ps"
    using assms(1) by (rule id_take_nth_drop)
  have "?k \<notin> fst ` set (drop (Suc i) ps)"
  proof
    assume "?k \<in> fst ` set (drop (Suc i) ps)"
    then obtain q where q: "q \<in> set (drop (Suc i) ps)" "fst q = ?k" by auto
    then obtain m where m: "m < length (drop (Suc i) ps)" "drop (Suc i) ps ! m = q"
      by (auto simp: in_set_conv_nth)
    then have "fst (ps ! (Suc i + m)) = ?k" "Suc i + m < length ps" using q by auto
    with assms(2) show False by (metis add_Suc less_add_Suc1)
  qed
  then have none: "map_of (rev (drop (Suc i) ps)) ?k = None"
    by (simp add: map_of_eq_None_iff)
  have "rev ps = rev (drop (Suc i) ps) @ (ps ! i) # rev (take i ps)"
    by (subst split) simp
  then have "map_of (rev ps) ?k = map_of (rev (drop (Suc i) ps) @ (ps ! i) # rev (take i ps)) ?k"
    by simp
  also have "\<dots> = Some (snd (ps ! i))"
    using none by (cases "ps ! i") (simp add: map_add_def)
  finally show ?thesis .
qed





section \<open>The parse of seedFromCSV against its reference\<close>



section \<open>Sequencing and the shape of a seeder's trace\<close>

lemma seqAwait_append:
  "seqAwait (xs @ ys) d =
     (case seqAwait xs d of
        (Some e, d', t) \<Rightarrow> (Some e, d', t)
      | (None, d', t) \<Rightarrow> (case seqAwait ys d' of (r, d'', t') \<Rightarrow> (r, d'', t @ t')))"
  by (induction xs arbitrary: d) (auto split: prod.splits option.splits)

lemma committed_append: "committed E (t1 @ t2) = committed E t1 @ committed E t2"
  by (induction E t1 rule: committed.induct) auto

lemma calmStep_log: "successOf (LogEv m) = None \<Longrightarrow> calmStep E (log m)"
  by (simp add: calmStep_def log_def)

lemma calmStep_throw: "calmStep E (throw e)"
  by (simp add: calmStep_def throw_def)

lemma calmStep_create: "calmStep E (create w E r)"
  by (auto simp: calmStep_def create_def split: option.splits)

lemma bulkCheck_tables:
  "bulkCheck w E rs d = Inr d' \<Longrightarrow> d' D = (if D = E then d E @ rs else d D)"
proof (induction rs arbitrary: d)
  case Nil
  then show ?case by simp
next
  case (Cons r rs)
  from Cons.prems obtain ok: "accept w d E r = None"
    and rest: "bulkCheck w E rs (d(E := d E @ [r])) = Inr d'"
    by (auto split: option.splits)
  from Cons.IH [OF rest] show ?case by simp
qed

lemma calmStep_bulkCreate: "calmStep E (bulkCreate w E rs)"
  by (auto simp: calmStep_def bulkCreate_def bulkCheck_tables split: sum.splits)

lemma calmStepD:
  assumes "calmStep E s" and "s d = (r, d', t)"
  shows "\<forall>x \<in> set t. calm E x" and "r = None \<longrightarrow> (\<forall>x \<in> set t. succeeded x)"
    and "\<forall>D. d' D = d D @ committed D t"
proof -
  note a = assms(1) [unfolded calmStep_def, THEN spec, of d]
  from a assms(2) show "\<forall>x \<in> set t. calm E x" and "r = None \<longrightarrow> (\<forall>x \<in> set t. succeeded x)"
    and "\<forall>D. d' D = d D @ committed D t"
    by simp_all
qed

lemma segStepD:
  assumes "segStep E s" and "s d = (r, d', t)"
  shows "\<forall>D. d' D = d D @ committed D t"
    and "r = None \<longrightarrow> (\<exists>t0 x. t = t0 @ [x] \<and> successOf x = Some E
                            \<and> (\<forall>y \<in> set t0. calm E y \<and> succeeded y))"
    and "r \<noteq> None \<longrightarrow> (\<forall>y \<in> set t. calm E y)"
proof -
  note a = assms(1) [unfolded segStep_def, THEN spec, of d]
  from a assms(2) have *: "(\<forall>D. d' D = d D @ committed D t)
        \<and> (case r of
              None \<Rightarrow> (\<exists>t0 x. t = t0 @ [x] \<and> successOf x = Some E
                          \<and> (\<forall>y \<in> set t0. calm E y \<and> succeeded y))
            | Some e \<Rightarrow> (\<forall>y \<in> set t. calm E y))"
    by simp
  from * show "\<forall>D. d' D = d D @ committed D t" by blast
  from * show "r = None \<longrightarrow> (\<exists>t0 x. t = t0 @ [x] \<and> successOf x = Some E
                            \<and> (\<forall>y \<in> set t0. calm E y \<and> succeeded y))"
    by (cases r) simp_all
  from * show "r \<noteq> None \<longrightarrow> (\<forall>y \<in> set t. calm E y)"
    by (cases r) simp_all
qed

lemma calmStep_seqAwait:
  "(\<And>s. s \<in> set ss \<Longrightarrow> calmStep E s) \<Longrightarrow> calmStep E (seqAwait ss)"
proof (induction ss)
  case Nil
  then show ?case by (simp add: calmStep_def)
next
  case (Cons s ss)
  have s: "calmStep E s" and rest: "calmStep E (seqAwait ss)"
    using Cons by simp_all
  show ?case
    unfolding calmStep_def
  proof
    fix d
    obtain r1 d1 t1 where sd: "s d = (r1, d1, t1)" by (cases "s d")
    obtain r2 d2 t2 where rd: "seqAwait ss d1 = (r2, d2, t2)" by (cases "seqAwait ss d1")
    note p1 = calmStepD [OF s sd]
    note p2 = calmStepD [OF rest rd]
    show "case seqAwait (s # ss) d of
            (r, d', t) \<Rightarrow>
              (\<forall>x \<in> set t. calm E x) \<and> (r = None \<longrightarrow> (\<forall>x \<in> set t. succeeded x))
              \<and> (\<forall>D. d' D = d D @ committed D t)"
      using sd rd p1 p2 by (cases r1) (auto simp: committed_append)
  qed
qed

lemma calmStep_forAwait: "(\<And>x. calmStep E (f x)) \<Longrightarrow> calmStep E (forAwait f xs)"
  unfolding forAwait_def by (rule calmStep_seqAwait) auto

lemma segStep_seq_log:
  assumes body: "calmStep E (seqAwait ss)" and m: "successOf (LogEv m) = Some E"
  shows "segStep E (seqAwait (ss @ [log m]))"
  unfolding segStep_def
proof
  fix d
  obtain r1 d1 t1 where sd: "seqAwait ss d = (r1, d1, t1)" by (cases "seqAwait ss d")
  note p1 = calmStepD [OF body sd]
  show "case seqAwait (ss @ [log m]) d of
          (r, d', t) \<Rightarrow>
            (\<forall>D. d' D = d D @ committed D t)
            \<and> (case r of
                  None \<Rightarrow> (\<exists>t0 x. t = t0 @ [x] \<and> successOf x = Some E
                              \<and> (\<forall>y \<in> set t0. calm E y \<and> succeeded y))
                | Some e \<Rightarrow> (\<forall>y \<in> set t. calm E y))"
    using sd p1 m by (cases r1) (auto simp: seqAwait_append log_def committed_append)
qed

lemma segStep_tryCatch:
  assumes body: "segStep E body"
    and handler: "\<And>e. calmStep E (handler e)"
    and rejects: "\<And>e d. fst (handler e d) \<noteq> None"
  shows "segStep E (tryCatch body handler)"
  unfolding segStep_def
proof
  fix d
  obtain r1 d1 t1 where bd: "body d = (r1, d1, t1)" by (cases "body d")
  note p1 = segStepD [OF body bd]
  show "case tryCatch body handler d of
          (r, d', t) \<Rightarrow>
            (\<forall>D. d' D = d D @ committed D t)
            \<and> (case r of
                  None \<Rightarrow> (\<exists>t0 x. t = t0 @ [x] \<and> successOf x = Some E
                              \<and> (\<forall>y \<in> set t0. calm E y \<and> succeeded y))
                | Some e \<Rightarrow> (\<forall>y \<in> set t. calm E y))"
  proof (cases r1)
    case None
    with bd p1 show ?thesis by (simp add: tryCatch_def)
  next
    case (Some e)
    obtain r2 d2 t2 where hd: "handler e d1 = (r2, d2, t2)" by (cases "handler e d1")
    note p2 = calmStepD [OF handler [of e] hd]
    from rejects [of e d1] hd obtain e2 where r2: "r2 = Some e2" by (cases r2) auto
    show ?thesis using bd Some hd p1 p2 r2 by (auto simp: tryCatch_def committed_append)
  qed
qed

lemma rethrow_rejects: "fst (seqAwait [log m, throw e] d) \<noteq> None"
  by (simp add: log_def throw_def)

lemma calmStep_rethrow: "calmStep E (seqAwait [log (SeederError E e), throw e])"
  by (rule calmStep_seqAwait) (auto simp: calmStep_log calmStep_throw)

lemma segStep_streamSeeder: "segStep E (streamSeeder w csvPath E onData dao)"
proof (cases "csvStream w csvPath")
  case (Inl e)
  then show ?thesis by (simp add: streamSeeder_def segStep_def throw_def)
next
  case (Inr rows)
  have "calmStep E (seqAwait [forAwait (\<lambda>r. create w E (dao r)) (map onData rows)])"
    by (rule calmStep_seqAwait) (simp add: calmStep_forAwait calmStep_create)
  then have "segStep E (seqAwait ([forAwait (\<lambda>r. create w E (dao r)) (map onData rows)]
                @ [log (CreatedCount E (length rows))]))"
    by (rule segStep_seq_log) simp
  then show ?thesis using Inr by (simp add: streamSeeder_def)
qed

lemma segStep_seedOrders: "segStep Orders (seedOrders w)"
proof -
  have "calmStep Orders (seqAwait [forAwait (\<lambda>orderData. create w Orders (passDao orderData)) orders])"
    by (rule calmStep_seqAwait) (simp add: calmStep_forAwait calmStep_create)
  then have "segStep Orders (seqAwait ([forAwait (\<lambda>orderData. create w Orders (passDao orderData)) orders]
                @ [log (CreatedCount Orders (length orders))]))"
    by (rule segStep_seq_log) simp
  then show ?thesis by (simp add: seedOrders_def)
qed

lemma segStep_seedAddresses: "segStep Addresses (seedAddresses w)"
proof -
  let ?loop = "\<lambda>addresses. forAwait
                 (\<lambda>addressData. seqAwait [log (CreatingAddress addressData),
                                           create w Addresses (passDao addressData)])
                 addresses"
  let ?mid = "case readFileSync w ''../docs/data/addresses.csv'' of
                Inl e \<Rightarrow> throw e
              | Inr csvData \<Rightarrow>
                  (case addressRecords csvData of
                     Inl e \<Rightarrow> throw e
                   | Inr addresses \<Rightarrow> ?loop addresses)"
  have loop: "calmStep Addresses (?loop addresses)" for addresses
    by (intro calmStep_forAwait calmStep_seqAwait) (auto simp: calmStep_log calmStep_create)
  have mid: "calmStep Addresses ?mid"
    by (auto simp: calmStep_throw loop split: sum.splits)
  have "calmStep Addresses (seqAwait [log (SeedingStart Addresses), ?mid])"
    by (rule calmStep_seqAwait) (use mid in \<open>auto simp: calmStep_log\<close>)
  then have "segStep Addresses (seqAwait ([log (SeedingStart Addresses), ?mid]
                @ [log (SeededOk Addresses)]))"
    by (rule segStep_seq_log) simp
  then have "segStep Addresses
      (tryCatch (seqAwait ([log (SeedingStart Addresses), ?mid] @ [log (SeededOk Addresses)]))
         (\<lambda>e. seqAwait [log (SeederError Addresses e), throw e]))"
    by (rule segStep_tryCatch) (rule calmStep_rethrow, rule rethrow_rejects)
  then show ?thesis by (simp add: seedAddresses_def)
qed

lemma calmStep_createShoppingCart: "calmStep OrderDetails (createShoppingCart w orderId products)"
  by (simp add: createShoppingCart_def calmStep_bulkCreate)

lemma segStep_seedOrderDetails: "segStep OrderDetails (seedOrderDetails w)"
proof -
  let ?loop = "\<lambda>orderDetails. forAwait
                 (\<lambda>(orderId, products). createShoppingCart w orderId products)
                 (shoppingCartCalls orderDetails)"
  let ?mid = "case readFileSync w ''../docs/data/order-details.csv'' of
                Inl e \<Rightarrow> throw e
              | Inr csvData \<Rightarrow>
                  (case orderDetailRecords csvData of
                     Inl e \<Rightarrow> throw e
                   | Inr orderDetails \<Rightarrow> ?loop orderDetails)"
  have loop: "calmStep OrderDetails (?loop orderDetails)" for orderDetails
    by (rule calmStep_forAwait) (auto simp: calmStep_createShoppingCart split: prod.splits)
  have mid: "calmStep OrderDetails ?mid"
    by (auto simp: calmStep_throw loop split: sum.splits)
  have "calmStep OrderDetails (seqAwait [log (SeedingStart OrderDetails), ?mid])"
    by (rule calmStep_seqAwait) (use mid in \<open>auto simp: calmStep_log\<close>)
  then have "segStep OrderDetails (seqAwait ([log (SeedingStart OrderDetails), ?mid]
                @ [log (SeededOk OrderDetails)]))"
    by (rule segStep_seq_log) simp
  then have "segStep OrderDetails
      (tryCatch (seqAwait ([log (SeedingStart OrderDetails), ?mid] @ [log (SeededOk OrderDetails)]))
         (\<lambda>e. seqAwait [log (SeederError OrderDetails e), throw e]))"
    by (rule segStep_tryCatch) (rule calmStep_rethrow, rule rethrow_rejects)
  then show ?thesis by (simp add: seedOrderDetails_def)
qed

lemma seeders_segStep: "(E, s) \<in> set (seeders w) \<Longrightarrow> segStep E s"
  by (auto simp: seeders_def seedRoles_def seedGenders_def seedCategories_def
      seedPaymentMethods_def seedBanks_def seedOrderStatus_def seedCountries_def
      seedDepartments_def seedCities_def seedAccesses_def seedUsers_def seedProducts_def
      segStep_streamSeeder segStep_seedOrders segStep_seedAddresses segStep_seedOrderDetails)

lemma seeders_registry: "map fst (seeders w) = registry"
  by (simp add: seeders_def registry_def)

lemma registry_depsOk: "depsOk {} registry"
  by (simp add: registry_def)

section \<open>Traces that keep the dependency order\<close>

lemma in_succs: "D \<in> succs t \<longleftrightarrow> (\<exists>x \<in> set t. successOf x = Some D)"
  by (force simp: succs_def map_filter_def)

lemma succs_empty: "succs t = {} \<longleftrightarrow> (\<forall>x \<in> set t. successOf x = None)"
proof
  assume "succs t = {}"
  then show "\<forall>x \<in> set t. successOf x = None"
    using in_succs [of _ t] by (metis empty_iff not_None_eq)
next
  assume "\<forall>x \<in> set t. successOf x = None"
  then show "succs t = {}" using in_succs [of _ t] by auto
qed

lemma succs_Nil: "succs [] = {}"
  by (simp add: succs_def)

lemma succs_append: "succs (t1 @ t2) = succs t1 \<union> succs t2"
  by (auto simp: in_succs)

lemma succs_Cons: "succs (x # t) = (case successOf x of None \<Rightarrow> {} | Some D \<Rightarrow> {D}) \<union> succs t"
  by (auto simp: in_succs split: option.splits)

lemma failedCall_Nil: "\<not> failedCall []"
  by (simp add: failedCall_def)

lemma failedCall_append: "failedCall (t1 @ t2) \<longleftrightarrow> failedCall t1 \<or> failedCall t2"
  by (auto simp: failedCall_def)

lemma ordered_append:
  "ordered sd (t1 @ t2)
     \<longleftrightarrow> ordered sd t1 \<and> ordered (sd \<union> succs t1) t2 \<and> (failedCall t1 \<longrightarrow> succs t2 = {})"
proof (induction sd t1 rule: ordered.induct)
  case (1 sd)
  then show ?case by (simp add: succs_Nil failedCall_def)
next
  case (2 sd E c out t)
  have f: "failedCall (CallEv E c out # t) \<longleftrightarrow> out \<noteq> None \<or> failedCall t"
    by (auto simp: failedCall_def)
  show ?case using 2 by (auto simp: f succs_append succs_Cons)
next
  case (3 sd m out t)
  have f: "failedCall (SyncEv m out # t) \<longleftrightarrow> failedCall t"
    by (auto simp: failedCall_def)
  show ?case using 3 by (simp add: f succs_Cons)
next
  case (4 sd l t)
  have f: "failedCall (LogEv l # t) \<longleftrightarrow> failedCall t"
    by (auto simp: failedCall_def)
  show ?case
  proof (cases "successOf (LogEv l)")
    case None
    with 4 show ?thesis by (simp add: f succs_Cons)
  next
    case (Some D)
    with 4 show ?thesis by (simp add: f succs_Cons)
  qed
qed

lemma ordered_no_call: "ordered sd t \<Longrightarrow> D \<in> sd \<Longrightarrow> CallEv D c out \<notin> set t"
  by (induction sd t rule: ordered.induct) (auto split: option.splits)

lemma ordered_calm:
  "\<forall>x \<in> set t. calm E x \<Longrightarrow> dependsOn E \<subseteq> sd \<Longrightarrow> E \<notin> sd \<Longrightarrow> ordered sd t \<and> succs t = {}"
proof (induction t)
  case Nil
  then show ?case by (simp add: succs_Nil)
next
  case (Cons x t)
  then have IH: "ordered sd t" "succs t = {}" by simp_all
  from Cons.prems have "calm E x" by simp
  then show ?case using IH Cons.prems by (cases x) (auto simp: succs_Cons)
qed

lemma calm_succeeded_no_failedCall:
  "\<forall>y \<in> set t. succeeded y \<Longrightarrow> \<not> failedCall t"
  by (force simp: failedCall_def)

lemma calm_not_sync: "calm E x \<Longrightarrow> \<not> isSync x"
  by (cases x) auto

lemma success_not_sync: "successOf x = Some E \<Longrightarrow> \<not> isSync x"
  by (cases x) auto

lemma success_not_call: "successOf x = Some E \<Longrightarrow> x \<noteq> CallEv D c out"
  by (cases x) auto

lemma success_succeeded: "successOf x = Some E \<Longrightarrow> succeeded x"
  by (cases x) auto

text \<open>The seeders of a list that keeps the dependency order, awaited in turn.\<close>

lemma ordered_seeders:
  assumes "\<And>E s. (E, s) \<in> set ps \<Longrightarrow> segStep E s"
    and "depsOk sd (map fst ps)"
    and "seqAwait (map snd ps) d = (r, d', t)"
  shows "ordered sd t \<and> succs t \<subseteq> fst ` set ps \<and> (\<forall>x \<in> set t. \<not> isSync x)
         \<and> (\<forall>D. d' D = d D @ committed D t)
         \<and> (\<forall>D c out. CallEv D c out \<in> set t \<longrightarrow> D \<in> fst ` set ps)
         \<and> (r = None \<longrightarrow> succs t = fst ` set ps \<and> (\<forall>x \<in> set t. succeeded x))"
  using assms
proof (induction ps arbitrary: sd d r d' t)
  case Nil
  then show ?case by (simp add: succs_Nil)
next
  case (Cons p ps)
  obtain E s where p: "p = (E, s)" by (cases p)
  have seg: "segStep E s" using Cons.prems(1) [of E s] p by simp
  have deps: "dependsOn E \<subseteq> sd" "E \<notin> sd" "depsOk (insert E sd) (map fst ps)"
    using Cons.prems(2) p by simp_all
  obtain r1 d1 t1 where sd1: "s d = (r1, d1, t1)" by (cases "s d")
  note q = segStepD [OF seg sd1]
  show ?case
  proof (cases r1)
    case (Some e)
    with sd1 Cons.prems(3) p have res: "r = Some e" "d' = d1" "t = t1" by simp_all
    from q(3) Some have calm: "\<forall>y \<in> set t1. calm E y" by simp
    from ordered_calm [OF calm deps(1,2)] have o: "ordered sd t1" "succs t1 = {}" by simp_all
    have ns: "\<forall>x \<in> set t1. \<not> isSync x" using calm calm_not_sync by blast
    have calls: "\<forall>D c out. CallEv D c out \<in> set t1 \<longrightarrow> D = E" using calm by auto
    show ?thesis using res o ns q(1) calls p by auto
  next
    case None
    obtain r2 d2 t2 where rest: "seqAwait (map snd ps) d1 = (r2, d2, t2)"
      by (cases "seqAwait (map snd ps) d1")
    with sd1 None Cons.prems(3) p have res: "r = r2" "d' = d2" "t = t1 @ t2" by simp_all
    from q(2) None obtain t0 x where t1: "t1 = t0 @ [x]" and x: "successOf x = Some E"
      and t0: "\<forall>y \<in> set t0. calm E y \<and> succeeded y" by blast
    from t0 have calm0: "\<forall>y \<in> set t0. calm E y" by simp
    from ordered_calm [OF calm0 deps(1,2)] have o0: "ordered sd t0" "succs t0 = {}" by simp_all
    have ox: "ordered sd [x]" using x by (cases x) (auto split: option.splits)
    have s1: "succs t1 = {E}" using t1 o0(2) x by (simp add: succs_append succs_Cons succs_Nil)
    have nf0: "\<not> failedCall t0" using t0 by (intro calm_succeeded_no_failedCall) simp
    have nfx: "\<not> failedCall [x]" using x by (cases x) (auto simp: failedCall_def)
    have nf1: "\<not> failedCall t1" using nf0 nfx t1 by (simp add: failedCall_append)
    have o1: "ordered sd t1"
      using o0 ox nf0 t1 by (simp add: ordered_append)
    have IH: "ordered (insert E sd) t2 \<and> succs t2 \<subseteq> fst ` set ps \<and> (\<forall>x \<in> set t2. \<not> isSync x)
         \<and> (\<forall>D. d2 D = d1 D @ committed D t2)
         \<and> (\<forall>D c out. CallEv D c out \<in> set t2 \<longrightarrow> D \<in> fst ` set ps)
         \<and> (r2 = None \<longrightarrow> succs t2 = fst ` set ps \<and> (\<forall>x \<in> set t2. succeeded x))"
      using Cons.IH [OF _ deps(3) rest] Cons.prems(1) by simp
    have o: "ordered sd t"
      using o1 IH nf1 s1 res by (simp add: ordered_append)
    have ns1: "\<forall>y \<in> set t1. \<not> isSync y"
      using t1 calm0 x calm_not_sync success_not_sync by auto
    have calls1: "\<forall>D c out. CallEv D c out \<in> set t1 \<longrightarrow> D = E"
      using t1 calm0 x success_not_call by fastforce
    have su1: "\<forall>y \<in> set t1. succeeded y"
      using t1 t0 x success_succeeded by auto
    have c1: "succs t \<subseteq> fst ` set (p # ps)"
      using res IH s1 p by (auto simp: succs_append)
    have c2: "\<forall>x \<in> set t. \<not> isSync x"
      using res IH ns1 by auto
    have c3: "\<forall>D. d' D = d D @ committed D t"
      using res IH q(1) by (simp add: committed_append)
    have c4: "\<forall>D c out. CallEv D c out \<in> set t \<longrightarrow> D \<in> fst ` set (p # ps)"
    proof (intro allI impI)
      fix D c out
      assume "CallEv D c out \<in> set t"
      then have "CallEv D c out \<in> set t1 \<or> CallEv D c out \<in> set t2" using res by simp
      then show "D \<in> fst ` set (p # ps)"
      proof
        assume "CallEv D c out \<in> set t1"
        then have "D = E" using calls1 by blast
        then show ?thesis using p by simp
      next
        assume "CallEv D c out \<in> set t2"
        then have "D \<in> fst ` set ps" using IH by blast
        then show ?thesis by simp
      qed
    qed
    have c5: "r = None \<longrightarrow> succs t = fst ` set (p # ps) \<and> (\<forall>x \<in> set t. succeeded x)"
      using res IH s1 su1 p by (auto simp: succs_append)
    show ?thesis using o c1 c2 c3 c4 c5 by blast
  qed
qed

lemma runSeeders_steps:
  "runSeeders w =
     tryCatch
       (seqAwait ([log Starting, sync w Force, log Synchronized]
                  @ map snd (seeders w) @ [log Completed]))
       (\<lambda>error. seqAwait [log (RunError error), throw error])"
  by (simp add: runSeeders_def seeders_def)

text \<open>A run of runSeeders, by the outcome of the reset and of the seeders.\<close>

lemma runSeeders_cases:
  "runSeeders w d =
     (case syncResult w Force of
        Some e \<Rightarrow> (Some e, d, [LogEv Starting, SyncEv Force (Some e), LogEv (RunError e)])
      | None \<Rightarrow>
          (case seqAwait (map snd (seeders w)) (\<lambda>_. []) of
             (Some e, d', t) \<Rightarrow>
               (Some e, d',
                [LogEv Starting, SyncEv Force None, LogEv Synchronized] @ t @ [LogEv (RunError e)])
           | (None, d', t) \<Rightarrow>
               (None, d',
                [LogEv Starting, SyncEv Force None, LogEv Synchronized] @ t @ [LogEv Completed])))"
  unfolding runSeeders_steps
  by (simp add: tryCatch_def seqAwait_append log_def sync_def throw_def
      split: option.splits prod.splits)

section \<open>The order of a run of runSeeders\<close>

lemma seeders_run:
  assumes "seqAwait (map snd (seeders w)) d = (r, d', t)"
  shows "ordered {} t" and "\<forall>x \<in> set t. \<not> isSync x"
    and "\<forall>D. d' D = d D @ committed D t"
    and "\<forall>D c out. CallEv D c out \<in> set t \<longrightarrow> D \<in> set registry"
    and "r = None \<longrightarrow> succs t = set registry \<and> (\<forall>x \<in> set t. succeeded x)"
proof -
  have deps: "depsOk {} (map fst (seeders w))"
    by (simp add: seeders_registry registry_depsOk)
  have img: "fst ` set (seeders w) = set registry"
    using seeders_registry [of w] by (metis set_map)
  note all = ordered_seeders [of "seeders w" "{}" d r d' t, OF seeders_segStep [where w = w] deps assms]
  from all show "ordered {} t" by blast
  from all show "\<forall>x \<in> set t. \<not> isSync x" by blast
  from all show "\<forall>D. d' D = d D @ committed D t" by blast
  from all show "\<forall>D c out. CallEv D c out \<in> set t \<longrightarrow> D \<in> set registry"
    unfolding img by blast
  from all show "r = None \<longrightarrow> succs t = set registry \<and> (\<forall>x \<in> set t. succeeded x)"
    unfolding img by blast
qed

lemma ordered_framed:
  "successOf (LogEv a) = None \<Longrightarrow> successOf (LogEv b) = None \<Longrightarrow> ordered {} t
     \<Longrightarrow> ordered {} ([LogEv Starting, SyncEv Force out, LogEv a] @ t @ [LogEv b])"
  by (simp add: ordered_append succs_Cons succs_Nil)

lemma runSeeders_ordered:
  assumes "runSeeders w d = (r, d', tr)"
  shows "ordered {} tr"
proof (cases "syncResult w Force")
  case (Some e)
  with assms have "tr = [LogEv Starting, SyncEv Force (Some e), LogEv (RunError e)]"
    by (auto simp: runSeeders_cases)
  then show ?thesis by simp
next
  case None
  obtain r1 d1 t where body: "seqAwait (map snd (seeders w)) (\<lambda>_. []) = (r1, d1, t)"
    by (cases "seqAwait (map snd (seeders w)) (\<lambda>_. [])")
  have o: "ordered {} t" by (rule seeders_run(1) [OF body])
  show ?thesis
  proof (cases r1)
    case None2: None
    with assms None body
    have "tr = [LogEv Starting, SyncEv Force None, LogEv Synchronized] @ t @ [LogEv Completed]"
      by (auto simp: runSeeders_cases)
    then show ?thesis using ordered_framed [of Synchronized Completed t None] o by simp
  next
    case (Some e)
    with assms None body
    have "tr = [LogEv Starting, SyncEv Force None, LogEv Synchronized] @ t @ [LogEv (RunError e)]"
      by (auto simp: runSeeders_cases)
    then show ?thesis using ordered_framed [of Synchronized "RunError e" t None] o by simp
  qed
qed

lemma ordered_call_after_success:
  assumes o: "ordered {} (pre @ CallEv E c out # post)" and D: "D \<in> dependsOn E"
  shows "\<exists>p1 s p2. pre = p1 @ s # p2 \<and> successOf s = Some D
           \<and> (\<forall>c' o'. CallEv D c' o' \<in> set p1 \<longrightarrow> o' = None)
           \<and> (\<forall>c' o'. CallEv D c' o' \<notin> set (p2 @ CallEv E c out # post))"
proof -
  from o have opre: "ordered {} pre" and ocall: "ordered (succs pre) (CallEv E c out # post)"
    by (simp_all add: ordered_append)
  from ocall D have "D \<in> succs pre" by auto
  then obtain s where s: "s \<in> set pre" "successOf s = Some D" by (auto simp: in_succs)
  then obtain p1 p2 where pre: "pre = p1 @ s # p2" by (auto simp: in_set_conv_decomp)
  have os: "ordered (succs p1) (s # p2)"
    using opre pre by (simp add: ordered_append)
  have scase: "\<exists>l. s = LogEv l" using s(2) by (cases s) auto
  then obtain l where l: "s = LogEv l" by blast
  from os l s(2) have op2: "ordered (insert D (succs p1)) p2" by simp
  have no2: "\<forall>c' o'. CallEv D c' o' \<notin> set p2"
    using ordered_no_call [OF op2, of D] by simp
  have Dpre: "D \<in> succs pre" by fact
  have no3: "\<forall>c' o'. CallEv D c' o' \<notin> set (CallEv E c out # post)"
    using ordered_no_call [OF ocall Dpre] by blast
  have ok1: "\<forall>c' o'. CallEv D c' o' \<in> set p1 \<longrightarrow> o' = None"
  proof (intro allI impI)
    fix c' o'
    assume "CallEv D c' o' \<in> set p1"
    then obtain q1 q2 where q: "p1 = q1 @ CallEv D c' o' # q2"
      by (auto simp: in_set_conv_decomp)
    have "ordered {} (q1 @ CallEv D c' o' # (q2 @ s # p2))"
      using opre pre q by simp
    then have "ordered (succs q1) (CallEv D c' o' # (q2 @ s # p2))"
      by (simp only: ordered_append) simp
    then have "o' \<noteq> None \<longrightarrow> succs (q2 @ s # p2) = {}" by simp
    moreover have "D \<in> succs (q2 @ s # p2)" using s(2) by (auto simp: in_succs)
    ultimately show "o' = None" by auto
  qed
  show ?thesis using pre s(2) ok1 no2 no3 by auto
qed

text \<open>
  C1. In every run of runSeeders, when an insert call for entity \<open>E\<close> is issued and
  \<open>E\<close> depends on \<open>D\<close>, the seeder of \<open>D\<close> has announced its success earlier in the
  run; every insert call for \<open>D\<close> lies before that announcement and succeeded, and none
  follows it. (A seeder announces success only after the loop over all its records.)
\<close>

theorem runSeeders_dependency_order:
  assumes "runSeeders w d = (r, d', tr)"
    and "tr = pre @ CallEv E c out # post"
    and "D \<in> dependsOn E"
  shows "\<exists>p1 s p2. pre = p1 @ s # p2 \<and> successOf s = Some D
           \<and> (\<forall>c' o'. CallEv D c' o' \<in> set p1 \<longrightarrow> o' = None)
           \<and> (\<forall>c' o'. CallEv D c' o' \<notin> set (p2 @ CallEv E c out # post))"
proof -
  have "ordered {} tr" using assms(1) by (rule runSeeders_ordered)
  then have "ordered {} (pre @ CallEv E c out # post)" using assms(2) by simp
  then show ?thesis using assms(3) by (rule ordered_call_after_success)
qed

lemma demo_trace:
  "snd (snd (runSeeders demoWorld emptyDb)) =
     [LogEv Starting, SyncEv Force None, LogEv Synchronized,
      CallEv Roles (Create [(''name'', JStr ''Admin''), (''is_active'', JBool True)]) None,
      LogEv (CreatedCount Roles 1), LogEv (CreatedCount Genders 0),
      LogEv (CreatedCount Categories 0), LogEv (CreatedCount PaymentMethods 0),
      LogEv (CreatedCount Banks 0), LogEv (CreatedCount OrderStatuses 0),
      LogEv (CreatedCount Countries 0), LogEv (CreatedCount Departments 0),
      LogEv (CreatedCount Cities 0)]
     @ CallEv Accesses
         (Create [(''role_id'', JNum (Fin 1)), (''username'', JStr ''admin''),
                  (''is_active'', JBool True)]) None
     # [LogEv (CreatedCount Accesses 1), LogEv (CreatedCount Users 0),
        LogEv (CreatedCount Products 0),
        CallEv Orders
          (Create [(''customer_id'', JNum (Fin 2)), (''bank_id'', JNum (Fin 1)),
                   (''order_status_id'', JNum (Fin 1)), (''total'', JNum (Fin 365000)),
                   (''is_active'', JBool True)]) None,
        LogEv (CreatedCount Orders 1), LogEv (SeedingStart Addresses),
        LogEv (SeededOk Addresses), LogEv (SeedingStart OrderDetails),
        LogEv (SeededOk OrderDetails), LogEv Completed]"
  by code_simp

theorem runSeeders_dependency_order_witness:
  "\<exists>p1 s p2.
      [LogEv Starting, SyncEv Force None, LogEv Synchronized,
       CallEv Roles (Create [(''name'', JStr ''Admin''), (''is_active'', JBool True)]) None,
       LogEv (CreatedCount Roles 1), LogEv (CreatedCount Genders 0),
       LogEv (CreatedCount Categories 0), LogEv (CreatedCount PaymentMethods 0),
       LogEv (CreatedCount Banks 0), LogEv (CreatedCount OrderStatuses 0),
       LogEv (CreatedCount Countries 0), LogEv (CreatedCount Departments 0),
       LogEv (CreatedCount Cities 0)] = p1 @ s # p2
      \<and> successOf s = Some Roles
      \<and> (\<forall>c' o'. CallEv Roles c' o' \<in> set p1 \<longrightarrow> o' = None)"
proof -
  obtain r d' tr where run: "runSeeders demoWorld emptyDb = (r, d', tr)"
    by (cases "runSeeders demoWorld emptyDb")
  then have tr: "tr = snd (snd (runSeeders demoWorld emptyDb))" by simp
  have dep: "Roles \<in> dependsOn Accesses" by simp
  show ?thesis
    using runSeeders_dependency_order [OF run tr [unfolded demo_trace] dep] by blast
qed

section \<open>The schema reset of runSeeders\<close>

text \<open>
  C8. Every run of runSeeders starts with the start message and then one call of the
  forced schema synchronisation; no other synchronisation follows, every insert call comes
  after it, and when it fails no insert call is issued at all.
\<close>

theorem runSeeders_reset_once_first:
  assumes "runSeeders w d = (r, d', tr)"
  shows "\<exists>out rest. tr = LogEv Starting # SyncEv Force out # rest
           \<and> (\<forall>x \<in> set rest. \<not> isSync x)
           \<and> (out \<noteq> None \<longrightarrow> (\<forall>x \<in> set rest. \<not> isCall x))"
proof (cases "syncResult w Force")
  case (Some e)
  with assms have "tr = LogEv Starting # SyncEv Force (Some e) # [LogEv (RunError e)]"
    by (auto simp: runSeeders_cases)
  then show ?thesis by simp
next
  case None
  obtain r1 d1 t where body: "seqAwait (map snd (seeders w)) (\<lambda>_. []) = (r1, d1, t)"
    by (cases "seqAwait (map snd (seeders w)) (\<lambda>_. [])")
  have ns: "\<forall>x \<in> set t. \<not> isSync x" by (rule seeders_run(2) [OF body])
  from assms None body obtain l where
    "tr = LogEv Starting # SyncEv Force None # (LogEv Synchronized # t @ [LogEv l])"
    by (cases r1) (auto simp: runSeeders_cases)
  then show ?thesis using ns by auto
qed

theorem runSeeders_reset_once_first_witness:
  "\<exists>out rest. snd (snd (runSeeders demoWorld emptyDb)) = LogEv Starting # SyncEv Force out # rest
      \<and> (\<forall>x \<in> set rest. \<not> isSync x)"
proof -
  obtain r d' tr where run: "runSeeders demoWorld emptyDb = (r, d', tr)"
    by (cases "runSeeders demoWorld emptyDb")
  then have tr: "snd (snd (runSeeders demoWorld emptyDb)) = tr" by simp
  show ?thesis
    unfolding tr using runSeeders_reset_once_first [OF run] by blast
qed

section \<open>Errors and success messages of runSeeders\<close>

lemma depsOk_distinct: "depsOk sd es \<Longrightarrow> distinct es \<and> set es \<inter> sd = {}"
proof (induction es arbitrary: sd)
  case Nil
  then show ?case by simp
next
  case (Cons E es)
  from Cons.prems have "depsOk (insert E sd) es" and E: "E \<notin> sd" by simp_all
  from Cons.IH [OF this(1)] have "distinct es \<and> set es \<inter> insert E sd = {}" .
  with E show ?case by auto
qed

lemma depsOk_prefix: "depsOk sd (xs @ ys) \<Longrightarrow> depsOk sd xs"
  by (induction xs arbitrary: sd) auto

lemma registry_distinct: "distinct registry"
  using depsOk_distinct [OF registry_depsOk] by simp














section \<open>What a failed run leaves in the database\<close>

lemma issued_append: "issued E (t1 @ t2) = issued E t1 @ issued E t2"
  by (induction E t1 rule: issued.induct) auto

lemma issued_succeeded: "\<forall>x \<in> set t. succeeded x \<Longrightarrow> issued E t = committed E t"
  by (induction E t rule: issued.induct) auto

lemma issued_none: "\<forall>c out. CallEv E c out \<notin> set t \<Longrightarrow> issued E t = [] \<and> committed E t = []"
proof (induction t)
  case Nil
  then show ?case by simp
next
  case (Cons x t)
  then show ?case by (cases x) auto
qed

lemma seqAwait_failure_split:
  "seqAwait (map snd ps) d = (Some e, d', t)
     \<Longrightarrow> \<exists>pre E s post d1 t1 t2.
           ps = pre @ (E, s) # post \<and> seqAwait (map snd pre) d = (None, d1, t1)
           \<and> s d1 = (Some e, d', t2) \<and> t = t1 @ t2"
proof (induction ps arbitrary: d t)
  case Nil
  then show ?case by simp
next
  case (Cons p ps)
  obtain E s where p: "p = (E, s)" by (cases p)
  obtain r1 d1 t1 where s: "s d = (r1, d1, t1)" by (cases "s d")
  show ?case
  proof (cases r1)
    case (Some e1)
    with Cons.prems s p have "e1 = e" "d1 = d'" "t1 = t" by simp_all
    with s Some p have "p # ps = [] @ (E, s) # ps \<and> seqAwait (map snd []) d = (None, d, [])
        \<and> s d = (Some e, d', t) \<and> t = [] @ t"
      by simp
    then show ?thesis by blast
  next
    case None
    obtain r2 d2 t2 where rest: "seqAwait (map snd ps) d1 = (r2, d2, t2)"
      by (cases "seqAwait (map snd ps) d1")
    with Cons.prems s p None have r2: "r2 = Some e" "d2 = d'" "t = t1 @ t2" by simp_all
    from Cons.IH [OF rest [unfolded r2(1,2)]] obtain pre F f post da ta tb where
      q: "ps = pre @ (F, f) # post" "seqAwait (map snd pre) d1 = (None, da, ta)"
         "f da = (Some e, d', tb)" "t2 = ta @ tb"
      by blast
    have "p # ps = (p # pre) @ (F, f) # post
        \<and> seqAwait (map snd (p # pre)) d = (None, da, t1 @ ta)
        \<and> f da = (Some e, d', tb) \<and> t = (t1 @ ta) @ tb"
      using q s p None r2 by simp
    then show ?thesis by blast
  qed
qed

text \<open>
  C2, as the code has it. When the reset succeeded and runSeeders rejects, the registry
  splits at the failing entity: every entity before it has announced success and its table
  holds the rows of every insert issued for it; no insert was issued for any entity after
  it and its table is empty; the table of the failing entity holds the rows of its inserts
  that succeeded before the failure (there is no rollback inside an entity), and it has
  announced no success.
\<close>

theorem runSeeders_partial_failure:
  assumes "runSeeders w d = (Some e, d', tr)" and "syncResult w Force = None"
  shows "\<exists>pre E post. registry = pre @ E # post
           \<and> (\<forall>D \<in> set pre. d' D = issued D tr \<and> D \<in> succs tr)
           \<and> (\<forall>D \<in> set post. d' D = [] \<and> issued D tr = [])
           \<and> d' E = committed E tr \<and> E \<notin> succs tr"
proof -
  obtain r1 da t where body: "seqAwait (map snd (seeders w)) (\<lambda>_. []) = (r1, da, t)"
    by (cases "seqAwait (map snd (seeders w)) (\<lambda>_. [])")
  from assms body have r1: "r1 = Some e" and da: "da = d'"
    and tr: "tr = [LogEv Starting, SyncEv Force None, LogEv Synchronized] @ t @ [LogEv (RunError e)]"
    by (cases r1; simp add: runSeeders_cases)+
  from seqAwait_failure_split [OF body [unfolded r1 da]] obtain pre E s post d1 t1 t2 where
    split: "seeders w = pre @ (E, s) # post"
    and pre: "seqAwait (map snd pre) (\<lambda>_. []) = (None, d1, t1)"
    and s: "s d1 = (Some e, d', t2)" and t: "t = t1 @ t2"
    by blast
  have reg: "registry = map fst pre @ E # map fst post"
    using seeders_registry [of w] split by simp
  have dist: "distinct (map fst pre @ E # map fst post)" using registry_distinct reg by simp
  have segs: "\<And>E s. (E, s) \<in> set pre \<Longrightarrow> segStep E s"
    using seeders_segStep [of _ _ w] split by simp
  have deps: "depsOk {} (map fst pre)"
    using registry_depsOk reg depsOk_prefix [of "{}" "map fst pre" "E # map fst post"] by simp
  note p = ordered_seeders [of pre "{}" "\<lambda>_. []" None d1 t1, OF segs deps pre]
  have d1: "\<forall>D. d1 D = committed D t1" using p by simp
  have calls1: "\<forall>D c out. CallEv D c out \<in> set t1 \<longrightarrow> D \<in> fst ` set pre" using p by blast
  have succ1: "succs t1 = fst ` set pre" and ok1: "\<forall>x \<in> set t1. succeeded x" using p by simp_all
  have seg: "segStep E s" using seeders_segStep [of E s w] split by simp
  note q = segStepD [OF seg s]
  have calm2: "\<forall>y \<in> set t2. calm E y" using q(3) by simp
  have calls2: "\<forall>D c out. CallEv D c out \<in> set t2 \<longrightarrow> D = E" using calm2 by auto
  have succ2: "succs t2 = {}"
  proof -
    have "\<forall>x \<in> set t2. successOf x = None"
    proof
      fix x assume "x \<in> set t2"
      with calm2 have "calm E x" by simp
      then show "successOf x = None" by (cases x) auto
    qed
    then show ?thesis by (simp add: succs_empty)
  qed
  have d': "\<forall>D. d' D = committed D t1 @ committed D t2" using q(1) d1 by simp
  have i: "issued D tr = issued D t1 @ issued D t2" for D
    by (simp add: tr t issued_append)
  have c: "committed D tr = committed D t1 @ committed D t2" for D
    by (simp add: tr t committed_append)
  have su: "succs tr = fst ` set pre"
    by (simp add: tr t succs_append succs_Cons succs_Nil succ1 succ2)
  have A: "\<forall>D \<in> set (map fst pre). d' D = issued D tr \<and> D \<in> succs tr"
  proof
    fix D assume D: "D \<in> set (map fst pre)"
    with dist have "D \<noteq> E" by auto
    with calls2 have "\<forall>c out. CallEv D c out \<notin> set t2" by blast
    from issued_none [OF this] have "issued D t2 = []" "committed D t2 = []" by simp_all
    moreover have "issued D t1 = committed D t1" using ok1 by (rule issued_succeeded)
    ultimately show "d' D = issued D tr \<and> D \<in> succs tr" using d' i su D by simp
  qed
  have B: "\<forall>D \<in> set (map fst post). d' D = [] \<and> issued D tr = []"
  proof
    fix D assume D: "D \<in> set (map fst post)"
    with dist have ne: "D \<noteq> E" "D \<notin> fst ` set pre" by auto
    with calls1 calls2 have "\<forall>c out. CallEv D c out \<notin> set t1" "\<forall>c out. CallEv D c out \<notin> set t2"
      by blast+
    from issued_none [OF this(1)] issued_none [OF this(2)]
    show "d' D = [] \<and> issued D tr = []" using d' i by simp
  qed
  have C: "d' E = committed E tr \<and> E \<notin> succs tr"
    using d' c su dist by auto
  show ?thesis using reg A B C by blast
qed

lemma dup_run:
  "fst (runSeeders dupWorld emptyDb) = Some (StorageError ''unique'')
   \<and> fst (snd (runSeeders dupWorld emptyDb)) Roles
       = [[(''name'', JStr ''Admin''), (''is_active'', JBool True)]]
   \<and> snd (snd (runSeeders dupWorld emptyDb))
       = [LogEv Starting, SyncEv Force None, LogEv Synchronized,
          CallEv Roles (Create [(''name'', JStr ''Admin''), (''is_active'', JBool True)]) None,
          CallEv Roles (Create [(''name'', JStr ''Admin''), (''is_active'', JBool True)])
            (Some (StorageError ''unique'')),
          LogEv (RunError (StorageError ''unique''))]"
  by code_simp

theorem runSeeders_partial_failure_witness:
  "\<exists>pre E post. registry = pre @ E # post
     \<and> (\<forall>D \<in> set post. fst (snd (runSeeders dupWorld emptyDb)) D = [])
     \<and> fst (snd (runSeeders dupWorld emptyDb)) E
         = committed E (snd (snd (runSeeders dupWorld emptyDb)))"
proof -
  obtain d' tr where run: "runSeeders dupWorld emptyDb = (Some (StorageError ''unique''), d', tr)"
    using dup_run by (cases "runSeeders dupWorld emptyDb") auto
  have sync: "syncResult dupWorld Force = None" by (simp add: dupWorld_def worldOf_def)
  show ?thesis
    using runSeeders_partial_failure [OF run sync] by (simp add: run) blast
qed

text \<open>
  C2 with the failing entity left empty does not hold: the first seeder fails on its
  second record, the run aborts, and the row of its first record is in the table.
\<close>

theorem runSeeders_failing_entity_rows_counterexample:
  "fst (runSeeders dupWorld emptyDb) = Some (StorageError ''unique'')
   \<and> fst (snd (runSeeders dupWorld emptyDb)) Roles
       = [[(''name'', JStr ''Admin''), (''is_active'', JBool True)]]
   \<and> successMessages Roles (snd (snd (runSeeders dupWorld emptyDb))) = []"
proof -
  have "successMessages Roles (snd (snd (runSeeders dupWorld emptyDb))) = []"
    using dup_run by (simp add: successMessages_def)
  then show ?thesis using dup_run by simp
qed

section \<open>runCompleteSeeder: no reset, inserts on top of what is there\<close>

lemma segStep_throw: "segStep E (throw e)"
  by (simp add: segStep_def throw_def)

lemma segStep_seedFromCSV: "segStep model (seedFromCSV w dir model filename transform)"
proof -
  have ok: "segStep model
      (seqAwait ([bulkCreate w model records] @ [log (CreatedCount model (length records))]))"
    for records
    by (rule segStep_seq_log) (auto intro: calmStep_seqAwait simp: calmStep_bulkCreate)
  show ?thesis
    using ok by (auto simp: seedFromCSV_def segStep_throw split: sum.splits)
qed

lemma completeSeeders_segStep: "(E, s) \<in> set (completeSeeders w) \<Longrightarrow> segStep E s"
  by (auto simp: completeSeeders_def segStep_seedFromCSV)

lemma completeSeeders_depsOk: "depsOk {} (map fst (completeSeeders w))"
  by (simp add: completeSeeders_def)

lemma runCompleteSeeder_steps:
  "runCompleteSeeder w =
     tryCatch
       (seqAwait ([log Starting, sync w Alter, log Synchronized]
                  @ map snd (completeSeeders w) @ [log Completed]))
       (\<lambda>error. seqAwait [log (RunError error), throw error])"
  by (simp add: runCompleteSeeder_def completeSeeders_def)

lemma runCompleteSeeder_cases:
  "runCompleteSeeder w d =
     (case syncResult w Alter of
        Some e \<Rightarrow> (Some e, d, [LogEv Starting, SyncEv Alter (Some e), LogEv (RunError e)])
      | None \<Rightarrow>
          (case seqAwait (map snd (completeSeeders w)) d of
             (Some e, d', t) \<Rightarrow>
               (Some e, d',
                [LogEv Starting, SyncEv Alter None, LogEv Synchronized] @ t @ [LogEv (RunError e)])
           | (None, d', t) \<Rightarrow>
               (None, d',
                [LogEv Starting, SyncEv Alter None, LogEv Synchronized] @ t @ [LogEv Completed])))"
  unfolding runCompleteSeeder_steps
  by (simp add: tryCatch_def seqAwait_append log_def sync_def throw_def
      split: option.splits prod.splits)




section \<open>Running twice\<close>

lemma runSeeders_from_any:
  "syncResult w Force = None \<Longrightarrow> runSeeders w d = runSeeders w da"
  by (simp add: runSeeders_cases)

lemma runSeeders_sync_fails:
  "syncResult w Force = Some e \<Longrightarrow> fst (snd (runSeeders w d)) = d"
  by (simp add: runSeeders_cases)

lemma runSeeders_twice:
  assumes "runSeeders w d0 = (r1, d1, t1)" and "runSeeders w d1 = (r2, d2, t2)"
  shows "r2 = r1 \<and> d2 = d1 \<and> t2 = t1"
proof (cases "syncResult w Force")
  case None
  from runSeeders_from_any [OF None, of d0 d1] assms show ?thesis by simp
next
  case (Some e)
  from runSeeders_sync_fails [OF Some, of d0] assms(1) have "d1 = d0" by simp
  with assms show ?thesis by simp
qed

lemma stable_log: "stable (log m)"
  by (simp add: stable_def log_def)

lemma stable_seedFromCSV: "stable (seedFromCSV w dir model filename transform)"
  unfolding stable_def
  by (auto simp: seedFromCSV_def throw_def log_def bulkCreate_def
      split: sum.splits prod.splits option.splits)

lemma stable_seqAwait: "(\<And>s. s \<in> set ss \<Longrightarrow> stable s) \<Longrightarrow> stable (seqAwait ss)"
proof (induction ss)
  case Nil
  then show ?case by (simp add: stable_def)
next
  case (Cons s ss)
  have s: "stable s" and rest: "stable (seqAwait ss)" using Cons by simp_all
  show ?case
    unfolding stable_def
  proof (intro allI impI)
    fix d d' t da
    assume run: "seqAwait (s # ss) d = (None, d', t)"
    obtain r1 d1 t1 where sd: "s d = (r1, d1, t1)" by (cases "s d")
    obtain r2 d2 t2 where rd: "seqAwait ss d1 = (r2, d2, t2)" by (cases "seqAwait ss d1")
    from run sd rd have r1: "r1 = None" and r2: "r2 = None" and t: "t = t1 @ t2"
      by (cases r1; simp)+
    obtain q1 e1 u1 where sa: "s da = (q1, e1, u1)" by (cases "s da")
    note s1 = s [unfolded stable_def, rule_format, OF sd [unfolded r1], of da]
    show "case seqAwait (s # ss) da of
            (None, db, ta) \<Rightarrow> ta = t
          | (Some e, db, ta) \<Rightarrow> (\<exists>E c. CallEv E c (Some e) \<in> set ta)"
    proof (cases q1)
      case (Some e)
      with s1 sa show ?thesis by simp
    next
      case None
      with s1 sa have u1: "u1 = t1" by simp
      obtain q2 e2 u2 where ra: "seqAwait ss e1 = (q2, e2, u2)" by (cases "seqAwait ss e1")
      note s2 = rest [unfolded stable_def, rule_format, OF rd [unfolded r2], of e1]
      show ?thesis using sa None ra s2 u1 t by (cases q2) auto
    qed
  qed
qed

lemma completeSeeders_stable: "stable (seqAwait (map snd (completeSeeders w)))"
  by (rule stable_seqAwait) (auto simp: completeSeeders_def stable_seedFromCSV)

lemma runCompleteSeeder_twice:
  assumes first: "runCompleteSeeder w d0 = (None, d1, t1)"
    and second: "runCompleteSeeder w d1 = (r2, d2, t2)"
  shows "(\<exists>e E c. r2 = Some e \<and> CallEv E c (Some e) \<in> set t2)
         \<or> (r2 = None \<and> (\<forall>D. d2 D = d1 D @ drop (length (d0 D)) (d1 D)))"
proof -
  from first have sync: "syncResult w Alter = None"
    by (auto simp: runCompleteSeeder_cases split: option.splits)
  obtain ra da ta where b1: "seqAwait (map snd (completeSeeders w)) d0 = (ra, da, ta)"
    by (cases "seqAwait (map snd (completeSeeders w)) d0")
  with first sync have ra: "ra = None" and da: "da = d1"
    and t1: "t1 = [LogEv Starting, SyncEv Alter None, LogEv Synchronized] @ ta @ [LogEv Completed]"
    by (cases ra; simp add: runCompleteSeeder_cases)+
  obtain rb db tb where b2: "seqAwait (map snd (completeSeeders w)) d1 = (rb, db, tb)"
    by (cases "seqAwait (map snd (completeSeeders w)) d1")
  note st = completeSeeders_stable [of w, unfolded stable_def, rule_format,
      OF b1 [unfolded ra], of d1]
  show ?thesis
  proof (cases rb)
    case (Some e)
    with st b2 obtain E c where "CallEv E c (Some e) \<in> set tb" by auto
    moreover from second sync b2 Some have "r2 = Some e"
      and "t2 = [LogEv Starting, SyncEv Alter None, LogEv Synchronized] @ tb @ [LogEv (RunError e)]"
      by (simp_all add: runCompleteSeeder_cases)
    ultimately show ?thesis by auto
  next
    case None
    with st b2 have tb: "tb = ta" by simp
    from second sync b2 None have r2: "r2 = None" and d2: "d2 = db"
      by (simp_all add: runCompleteSeeder_cases)
    note p1 = ordered_seeders [of "completeSeeders w" "{}" d0 ra da ta,
        OF completeSeeders_segStep [where w = w] completeSeeders_depsOk b1]
    note p2 = ordered_seeders [of "completeSeeders w" "{}" d1 rb db tb,
        OF completeSeeders_segStep [where w = w] completeSeeders_depsOk b2]
    have g1: "\<forall>D. d1 D = d0 D @ committed D ta" using p1 da by simp
    have g2: "\<forall>D. d2 D = d1 D @ committed D ta" using p2 d2 tb by simp
    have "\<forall>D. d2 D = d1 D @ drop (length (d0 D)) (d1 D)"
    proof
      fix D
      from g1 have "drop (length (d0 D)) (d1 D) = committed D ta" by simp
      with g2 show "d2 D = d1 D @ drop (length (d0 D)) (d1 D)" by simp
    qed
    with r2 show ?thesis by simp
  qed
qed

text \<open>
  C7. Two runs of runSeeders in the same environment end in the same database (so in the
  same row counts), with the same outcome and trace: each run resets the schema first.
  When runCompleteSeeder, which does not reset, has resolved and is run again on the
  database it left, either an insert call is rejected and the run rejects with that
  error, or every table receives once more the rows the first run added to it; so when
  the first run added a row to some table, the second run rejects or that table's count
  changes.
\<close>

theorem seeding_twice:
  "(runSeeders w d0 = (r1, d1, t1) \<and> runSeeders w d1 = (r2, d2, t2)
      \<longrightarrow> r2 = r1 \<and> d2 = d1 \<and> t2 = t1 \<and> (\<forall>D. length (d2 D) = length (d1 D)))
   \<and> (runCompleteSeeder w c0 = (None, c1, u1) \<and> runCompleteSeeder w c1 = (q2, c2, u2)
      \<longrightarrow> ((\<exists>e E c. q2 = Some e \<and> CallEv E c (Some e) \<in> set u2)
            \<or> (q2 = None \<and> (\<forall>D. c2 D = c1 D @ drop (length (c0 D)) (c1 D))))
          \<and> (\<forall>D. length (c0 D) < length (c1 D)
                \<longrightarrow> q2 \<noteq> None \<or> length (c2 D) \<noteq> length (c1 D)))"
proof (intro conjI impI)
  assume "runSeeders w d0 = (r1, d1, t1) \<and> runSeeders w d1 = (r2, d2, t2)"
  then have "r2 = r1 \<and> d2 = d1 \<and> t2 = t1" using runSeeders_twice by blast
  then show "r2 = r1" "d2 = d1" "t2 = t1" "\<forall>D. length (d2 D) = length (d1 D)" by simp_all
next
  assume h: "runCompleteSeeder w c0 = (None, c1, u1) \<and> runCompleteSeeder w c1 = (q2, c2, u2)"
  then have alt: "(\<exists>e E c. q2 = Some e \<and> CallEv E c (Some e) \<in> set u2)
            \<or> (q2 = None \<and> (\<forall>D. c2 D = c1 D @ drop (length (c0 D)) (c1 D)))"
    using runCompleteSeeder_twice by blast
  then show "(\<exists>e E c. q2 = Some e \<and> CallEv E c (Some e) \<in> set u2)
            \<or> (q2 = None \<and> (\<forall>D. c2 D = c1 D @ drop (length (c0 D)) (c1 D)))" .
  show "\<forall>D. length (c0 D) < length (c1 D) \<longrightarrow> q2 \<noteq> None \<or> length (c2 D) \<noteq> length (c1 D)"
  proof (intro allI impI)
    fix D assume grow: "length (c0 D) < length (c1 D)"
    from alt show "q2 \<noteq> None \<or> length (c2 D) \<noteq> length (c1 D)"
    proof
      assume "\<exists>e E c. q2 = Some e \<and> CallEv E c (Some e) \<in> set u2"
      then show ?thesis by auto
    next
      assume "q2 = None \<and> (\<forall>D. c2 D = c1 D @ drop (length (c0 D)) (c1 D))"
      then have "length (c2 D) = length (c1 D) + (length (c1 D) - length (c0 D))"
        by (metis length_append length_drop)
      with grow have "length (c2 D) \<noteq> length (c1 D)" by arith
      then show ?thesis by simp
    qed
  qed
qed

lemma complete_runs:
  "fst (runCompleteSeeder completeWorld emptyDb) = None
   \<and> fst (runCompleteSeeder completeWorld (fst (snd (runCompleteSeeder completeWorld emptyDb))))
       = Some (StorageError ''unique'')
   \<and> fst (runCompleteSeeder laxWorld emptyDb) = None
   \<and> fst (runCompleteSeeder laxWorld (fst (snd (runCompleteSeeder laxWorld emptyDb)))) = None
   \<and> fst (snd (runCompleteSeeder laxWorld emptyDb)) Countries = [[(''name'', JStr ''Colombia'')]]"
  by code_simp

theorem seeding_twice_witness:
  "fst (snd (runSeeders demoWorld (fst (snd (runSeeders demoWorld emptyDb)))))
     = fst (snd (runSeeders demoWorld emptyDb))
   \<and> fst (runCompleteSeeder completeWorld (fst (snd (runCompleteSeeder completeWorld emptyDb))))
       = Some (StorageError ''unique'')
   \<and> fst (snd (runCompleteSeeder laxWorld (fst (snd (runCompleteSeeder laxWorld emptyDb)))))
         Countries
       = [[(''name'', JStr ''Colombia'')], [(''name'', JStr ''Colombia'')]]"
proof -
  obtain r1 d1 t1 where a1: "runSeeders demoWorld emptyDb = (r1, d1, t1)"
    by (cases "runSeeders demoWorld emptyDb")
  obtain r2 d2 t2 where a2: "runSeeders demoWorld d1 = (r2, d2, t2)"
    by (cases "runSeeders demoWorld d1")
  obtain c1 u1 where b1: "runCompleteSeeder laxWorld emptyDb = (None, c1, u1)"
    using complete_runs by (cases "runCompleteSeeder laxWorld emptyDb") auto
  obtain q2 c2 u2 where b2: "runCompleteSeeder laxWorld c1 = (q2, c2, u2)"
    by (cases "runCompleteSeeder laxWorld c1")
  note instA = seeding_twice [where w = demoWorld and ?d0.0 = emptyDb and ?r1.0 = r1
      and ?d1.0 = d1 and ?t1.0 = t1 and ?r2.0 = r2 and ?d2.0 = d2 and ?t2.0 = t2]
  note instB = seeding_twice [where w = laxWorld and ?c0.0 = emptyDb and ?c1.0 = c1
      and ?u1.0 = u1 and ?q2.0 = q2 and ?c2.0 = c2 and ?u2.0 = u2]
  from instA a1 a2 have A: "d2 = d1" by blast
  have q2: "q2 = None" using complete_runs b1 b2 by simp
  from instB b1 b2 q2 have "\<forall>D. c2 D = c1 D @ drop (length (emptyDb D)) (c1 D)" by blast
  then have "c2 Countries = c1 Countries @ c1 Countries" by (simp add: emptyDb_def)
  moreover have "c1 Countries = [[(''name'', JStr ''Colombia'')]]" using complete_runs b1 by simp
  ultimately have B: "c2 Countries = [[(''name'', JStr ''Colombia'')], [(''name'', JStr ''Colombia'')]]"
    by simp
  show ?thesis using A a1 a2 B b1 b2 complete_runs by simp
qed

section \<open>The boolean column\<close>

lemma getProp_setProp: "getProp (setProp k v r) k = Some v"
  by (simp add: getProp_def map_of_setProp)

lemma guest_records:
  "seedFromCSV_records None guestCsv = Inr (map lift guestRows)
   \<and> seedFromCSV_records (Some activeTransform) guestCsv
       = Inr [[(''name'', JStr ''Admin''), (''is_active'', JBool True)],
              [(''name'', JStr ''User''), (''is_active'', JBool False)],
              [(''name'', JStr ''Guest''), (''is_active'', JBool False)]]
   \<and> map activeOnData guestRows
       = [[(''name'', JStr ''Admin''), (''is_active'', JBool True)],
          [(''name'', JStr ''User''), (''is_active'', JBool False)],
          [(''name'', JStr ''Guest''), (''is_active'', JBool False)]]"
  by code_simp

lemma guest_run:
  "fst (seedRoles guestWorld emptyDb) = None
   \<and> fst (snd (seedRoles guestWorld emptyDb)) Roles
       = [[(''name'', JStr ''Admin''), (''is_active'', JBool True)],
          [(''name'', JStr ''User''), (''is_active'', JBool False)],
          [(''name'', JStr ''Guest''), (''is_active'', JBool False)]]"
  by code_simp

text \<open>
  C4, as the code has it. The \<open>is_active\<close> field of a converted row is always a boolean,
  true exactly when the raw value is the word true, in the \<open>data\<close> handler of the role and
  gender seeders, in the argument createRole builds, and in the transform of seedFromCSV.
  For the three-row file the records carry true, false and false: the missing value of
  the third row is read as the empty string and coerced to false, and the three rows are
  inserted.
\<close>

theorem is_active_coerced_to_boolean:
  "getProp (activeOnData r) ''is_active'' = Some (JBool (getRaw r ''is_active'' = Some ''true''))
   \<and> getProp (nameActiveDao (activeOnData r)) ''is_active''
       = Some (JBool (getRaw r ''is_active'' = Some ''true''))
   \<and> getProp (activeTransform row) ''is_active'' = Some (JBool (getVal row ''is_active'' = JStr ''true''))
   \<and> seedFromCSV_records None guestCsv = Inr (map lift guestRows)
   \<and> map activeOnData guestRows
       = [[(''name'', JStr ''Admin''), (''is_active'', JBool True)],
          [(''name'', JStr ''User''), (''is_active'', JBool False)],
          [(''name'', JStr ''Guest''), (''is_active'', JBool False)]]
   \<and> seedFromCSV_records (Some activeTransform) guestCsv = Inr (map activeOnData guestRows)
   \<and> fst (seedRoles guestWorld emptyDb) = None
   \<and> fst (snd (seedRoles guestWorld emptyDb)) Roles = map activeOnData guestRows"
proof -
  have a: "getProp (activeOnData r) ''is_active'' = Some (JBool (getRaw r ''is_active'' = Some ''true''))"
    by (simp add: activeOnData_def getProp_setProp)
  then have b: "getProp (nameActiveDao (activeOnData r)) ''is_active''
       = Some (JBool (getRaw r ''is_active'' = Some ''true''))"
    by (simp add: nameActiveDao_def getProp_def getVal_def coalesce_def)
  have c: "getProp (activeTransform row) ''is_active'' = Some (JBool (getVal row ''is_active'' = JStr ''true''))"
    by (simp add: activeTransform_def getProp_setProp)
  show ?thesis using a b c guest_records guest_run by simp
qed

text \<open>
  C4 with a failing or null third row does not hold: the third row is inserted, even by
  a storage layer that rejects null values, and its \<open>is_active\<close> is the boolean
  false, not null.
\<close>

theorem guest_row_counterexample:
  "fst (seedRoles guestWorld emptyDb) = None
   \<and> fst (snd (seedRoles guestWorld emptyDb)) Roles ! 2
       = [(''name'', JStr ''Guest''), (''is_active'', JBool False)]
   \<and> getVal (fst (snd (seedRoles guestWorld emptyDb)) Roles ! 2) ''is_active'' \<noteq> JNull"
  using guest_run by (simp add: getVal_def getProp_def)

section \<open>The renamed column of the address seeder\<close>

lemma fold_setProp_pairs:
  assumes "\<And>i h r. f (i, h) r = setProp (key h) (val i h) r"
  shows "fold f ihs r0 = fold (\<lambda>(k, v) r. setProp k v r) (map (\<lambda>(i, h). (key h, val i h)) ihs) r0"
proof (induction ihs arbitrary: r0)
  case Nil
  then show ?case by simp
next
  case (Cons p ihs)
  obtain i h where p: "p = (i, h)" by (cases p)
  show ?case using Cons.IH [of "f (i, h) r0"] by (simp add: p assms)
qed

lemma addressRecord_pairs:
  "addressRecord headers line =
     fold (\<lambda>(k, v) r. setProp k v r)
       (map (\<lambda>(i, h). (addressKey h, addressValue (js_split CHR '','' line) i h))
          (enumerate 0 headers)) []"
  unfolding addressRecord_def Let_def
  by (rule fold_setProp_pairs) (simp add: addressAssign_def addressKey_def addressValue_def)

lemma addressRecord_unrenamed_pairs:
  "addressRecord_unrenamed headers line =
     fold (\<lambda>(k, v) r. setProp k v r)
       (map (\<lambda>(i, h). (h, unrenamedValue (js_split CHR '','' line) i h))
          (enumerate 0 headers)) []"
  unfolding addressRecord_unrenamed_def Let_def
  by (rule fold_setProp_pairs) (simp add: addressAssign_unrenamed_def unrenamedValue_def)

lemma map_of_rev_absent: "k \<notin> fst ` set ps \<Longrightarrow> map_of (rev ps) k = None"
  by (simp add: map_of_eq_None_iff)

lemma addressRecord_no_misspelled: "getProp (addressRecord headers line) ''departament_id'' = None"
proof -
  let ?ps = "map (\<lambda>(i, h). (addressKey h, addressValue (js_split CHR '','' line) i h))
               (enumerate 0 headers)"
  have "''departament_id'' \<notin> fst ` set ?ps"
    by (auto simp: addressKey_def split: if_splits)
  then have "map_of (rev ?ps) ''departament_id'' = None" by (rule map_of_rev_absent)
  then show ?thesis
    by (simp only: getProp_def addressRecord_pairs map_of_fold_setProp) simp
qed

lemma addressRecord_department:
  assumes i: "i < length headers" and h: "headers ! i = ''departament_id''"
    and last: "\<forall>j. i < j \<and> j < length headers
                 \<longrightarrow> headers ! j \<noteq> ''departament_id'' \<and> headers ! j \<noteq> ''department_id''"
  shows "getProp (addressRecord headers line) ''department_id''
           = Some (JNum (ofInt (parseInt (nthJs (js_split CHR '','' line) i))))"
proof -
  let ?vs = "js_split CHR '','' line"
  let ?ps = "map (\<lambda>(i, h). (addressKey h, addressValue ?vs i h)) (enumerate 0 headers)"
  have len: "length ?ps = length headers" by simp
  have nth: "?ps ! j = (addressKey (headers ! j), addressValue ?vs j (headers ! j))"
    if "j < length headers" for j
    using that by (simp add: nth_enumerate_eq)
  have "map_of (rev ?ps) (fst (?ps ! i)) = Some (snd (?ps ! i))"
  proof (rule map_of_rev_last_occurrence)
    show "i < length ?ps" using i by simp
    show "\<forall>j. i < j \<and> j < length ?ps \<longrightarrow> fst (?ps ! j) \<noteq> fst (?ps ! i)"
    proof (intro allI impI)
      fix j assume j: "i < j \<and> j < length ?ps"
      then have jl: "j < length headers" by simp
      from last j jl have "addressKey (headers ! j) \<noteq> ''department_id''"
        by (auto simp: addressKey_def)
      then show "fst (?ps ! j) \<noteq> fst (?ps ! i)"
        using nth [OF jl] nth [OF i] h by (simp add: addressKey_def)
    qed
  qed
  then have "map_of (rev ?ps) ''department_id''
      = Some (JNum (ofInt (parseInt (nthJs ?vs i))))"
    using nth [OF i] h by (simp add: addressKey_def addressValue_def)
  then show ?thesis
    by (simp only: getProp_def addressRecord_pairs map_of_fold_setProp) simp
qed

lemma addressRecord_unrenamed_absent:
  assumes "''department_id'' \<notin> set headers"
  shows "getProp (addressRecord_unrenamed headers line) ''department_id'' = None"
proof -
  have "fst ` set (map (\<lambda>(i, h). (h, unrenamedValue vs i h)) (enumerate 0 headers)) = set headers"
    for vs
  proof -
    have "map fst (map (\<lambda>(i, h). (h, unrenamedValue vs i h)) (enumerate 0 headers))
            = map snd (enumerate 0 headers)"
      by (simp only: map_map) (simp add: case_prod_unfold comp_def del: map_snd_enumerate)
    then have "set (map fst (map (\<lambda>(i, h). (h, unrenamedValue vs i h)) (enumerate 0 headers)))
            = set headers"
      by (simp only: map_snd_enumerate)
    then show ?thesis by (simp only: set_map)
  qed
  with assms have "''department_id''
      \<notin> fst ` set (map (\<lambda>(i, h). (h, unrenamedValue (js_split CHR '','' line) i h))
                     (enumerate 0 headers))"
    by simp
  then have "map_of (rev (map (\<lambda>(i, h). (h, unrenamedValue (js_split CHR '','' line) i h))
                     (enumerate 0 headers))) ''department_id'' = None"
    by (rule map_of_rev_absent)
  then show ?thesis
    by (simp only: getProp_def addressRecord_unrenamed_pairs map_of_fold_setProp) simp
qed

lemma addressRecords_members:
  "addressRecords csvData = Inr records \<Longrightarrow> rec \<in> set records
     \<Longrightarrow> \<exists>headers line. rec = addressRecord headers line"
  by (fastforce simp: addressRecords_def split: sum.splits prod.splits)

text \<open>
  C5. No record the address seeder builds has a property \<open>departament_id\<close>. When the
  header has the misspelled column, with no column of either spelling further right, the
  record's \<open>department_id\<close> is the number parseInt reads from that column's value, so
  the not-null check of the Address model does not name it. The version of the seeder
  without the renaming leaves \<open>department_id\<close> out of the record whenever the header has
  no column of that exact name, and the insert of such a record is rejected with a
  not-null violation that names \<open>department_id\<close>.
\<close>

theorem address_column_renamed:
  "(addressRecords csvData = Inr records \<and> rec \<in> set records
      \<longrightarrow> getProp rec ''departament_id'' = None)
   \<and> (i < length headers \<and> headers ! i = ''departament_id''
       \<and> (\<forall>j. i < j \<and> j < length headers
              \<longrightarrow> headers ! j \<noteq> ''departament_id'' \<and> headers ! j \<noteq> ''department_id'')
      \<longrightarrow> getProp (addressRecord headers line) ''department_id''
            = Some (JNum (ofInt (parseInt (nthJs (js_split CHR '','' line) i))))
          \<and> ''department_id'' \<notin> set (notNullViolations addressRequired (addressRecord headers line)))
   \<and> (''department_id'' \<notin> set headers
      \<longrightarrow> getProp (addressRecord_unrenamed headers line) ''department_id'' = None
          \<and> (\<exists>vs. create w Addresses (addressRecord_unrenamed headers line) d
                     = (Some (NotNullViolation vs), d,
                        [CallEv Addresses (Create (addressRecord_unrenamed headers line))
                           (Some (NotNullViolation vs))])
                   \<and> ''department_id'' \<in> set vs))"
proof (intro conjI impI)
  assume "addressRecords csvData = Inr records \<and> rec \<in> set records"
  then obtain hs l where "rec = addressRecord hs l"
    using addressRecords_members by blast
  then show "getProp rec ''departament_id'' = None" by (simp add: addressRecord_no_misspelled)
next
  assume h: "i < length headers \<and> headers ! i = ''departament_id''
       \<and> (\<forall>j. i < j \<and> j < length headers
              \<longrightarrow> headers ! j \<noteq> ''departament_id'' \<and> headers ! j \<noteq> ''department_id'')"
  then show g: "getProp (addressRecord headers line) ''department_id''
            = Some (JNum (ofInt (parseInt (nthJs (js_split CHR '','' line) i))))"
    using addressRecord_department by blast
  then show "''department_id'' \<notin> set (notNullViolations addressRequired (addressRecord headers line))"
    by (simp add: notNullViolations_def getVal_def)
next
  assume h: "''department_id'' \<notin> set headers"
  let ?rec = "addressRecord_unrenamed headers line"
  show g: "getProp ?rec ''department_id'' = None"
    using h by (rule addressRecord_unrenamed_absent)
  then have v: "''department_id'' \<in> set (notNullViolations addressRequired ?rec)"
    by (simp add: notNullViolations_def getVal_def addressRequired_def)
  then have ne: "notNullViolations addressRequired ?rec \<noteq> []" by auto
  have "create w Addresses ?rec d
          = (Some (NotNullViolation (notNullViolations addressRequired ?rec)), d,
             [CallEv Addresses (Create ?rec)
                (Some (NotNullViolation (notNullViolations addressRequired ?rec)))])"
    using ne by (simp add: create_def accept_def modelValidate_def)
  with v show "\<exists>vs. create w Addresses ?rec d
                     = (Some (NotNullViolation vs), d,
                        [CallEv Addresses (Create ?rec) (Some (NotNullViolation vs))])
                   \<and> ''department_id'' \<in> set vs"
    by blast
qed

lemma address_example:
  "addressRecords addressCsv
     = Inr [[(''user_id'', JNum (Fin 1)), (''city_id'', JNum (Fin 2)),
             (''department_id'', JNum (Fin 3)), (''country_id'', JNum (Fin 4)),
             (''street'', JStr ''Main''), (''number'', JStr ''10''),
             (''postal_code'', JStr ''1100'')]]
   \<and> ofInt (parseInt (nthJs (js_split CHR '','' ''1,2,3,4,Main,10,1100'') 2)) = Fin 3
   \<and> fst (seedAddresses addressWorld emptyDb) = None
   \<and> fst (seedAddresses_unrenamed addressWorld emptyDb) = Some (NotNullViolation [''department_id''])"
  by code_simp

theorem address_column_renamed_witness:
  "getProp [(''user_id'', JNum (Fin 1)), (''city_id'', JNum (Fin 2)),
            (''department_id'', JNum (Fin 3)), (''country_id'', JNum (Fin 4)),
            (''street'', JStr ''Main''), (''number'', JStr ''10''),
            (''postal_code'', JStr ''1100'')] ''departament_id'' = None
   \<and> getProp (addressRecord [''user_id'', ''city_id'', ''departament_id'', ''country_id'']
                 ''1,2,3,4,Main,10,1100'') ''department_id'' = Some (JNum (Fin 3))
   \<and> getProp (addressRecord_unrenamed [''user_id'', ''city_id'', ''departament_id'', ''country_id'']
                 ''1,2,3,4,Main,10,1100'') ''department_id'' = None
   \<and> fst (seedAddresses_unrenamed addressWorld emptyDb) = Some (NotNullViolation [''department_id''])"
proof -
  let ?hs = "[''user_id'', ''city_id'', ''departament_id'', ''country_id'']"
  let ?rec = "[(''user_id'', JNum (Fin 1)), (''city_id'', JNum (Fin 2)),
               (''department_id'', JNum (Fin 3)), (''country_id'', JNum (Fin 4)),
               (''street'', JStr ''Main''), (''number'', JStr ''10''),
               (''postal_code'', JStr ''1100'')]"
  note inst = address_column_renamed [where csvData = addressCsv and records = "[?rec]"
      and rec = ?rec and i = 2 and headers = ?hs and line = "''1,2,3,4,Main,10,1100''"]
  have h1: "addressRecords addressCsv = Inr [?rec] \<and> ?rec \<in> set [?rec]"
    using address_example by simp
  have h2: "2 < length ?hs \<and> ?hs ! 2 = ''departament_id''
       \<and> (\<forall>j. 2 < j \<and> j < length ?hs
              \<longrightarrow> ?hs ! j \<noteq> ''departament_id'' \<and> ?hs ! j \<noteq> ''department_id'')"
    by (auto simp: nth_Cons' less_Suc_eq)
  have h3: "''department_id'' \<notin> set ?hs" by simp
  from inst h1 have a: "getProp ?rec ''departament_id'' = None" by blast
  from inst h2 have "getProp (addressRecord ?hs ''1,2,3,4,Main,10,1100'') ''department_id''
            = Some (JNum (ofInt (parseInt (nthJs (js_split CHR '','' ''1,2,3,4,Main,10,1100'') 2))))"
    by blast
  then have b: "getProp (addressRecord ?hs ''1,2,3,4,Main,10,1100'') ''department_id''
                  = Some (JNum (Fin 3))"
    using address_example by simp
  from inst h3 have c: "getProp (addressRecord_unrenamed ?hs ''1,2,3,4,Main,10,1100'')
                          ''department_id'' = None"
    by blast
  show ?thesis using a b c address_example by simp
qed

section \<open>Property keys of integers\<close>


















section \<open>The grouping of the order-detail seeder\<close>



















end
